theory Spec2Isabelle
  imports Main "HOL-Library.Sublist"
begin

section \<open>The site generator \<^verbatim>\<open>website/generate.js\<close>\<close>

text \<open>
  The script loads every document of the site, folds the documents into a navigation
  tree, emits a sitemap, and writes a JSON file and an HTML file per document. The
  theory embeds the names the loader gives the documents (lines 66 to 70), the tree
  fold (lines 114 to 139), the sitemap entries (lines 141 to 152) and the files of
  the documents (lines 158 to 254).

  The tree fold is given twice. The first form is a function on trees as values, which
  returns the tree rebuilt along the walk. The second form runs the loops in place on
  a store of objects, reference by reference, as the script does. The objects the
  second form leaves are the tree the first form returns
  (\<open>navTree_store_represents\<close>), so the properties of the tree are proved on the
  first form.
\<close>

subsection \<open>Data\<close>

text \<open>
  \<^verbatim>\<open>data.meta\<close>: the title the document gives, and the fields of \<^verbatim>\<open>Info\<close>
  that lines 19 to 23 and 94 name. Dates are milliseconds since the epoch.
\<close>

record meta =
  title :: "string option"
  author :: "string option"
  published :: "int option"
  modified :: "int option"

text \<open>
  \<^verbatim>\<open>data\<close>: the exports of a document's module other than \<^verbatim>\<open>default\<close> and
  \<^verbatim>\<open>info\<close> (line 75). A field that is \<^verbatim>\<open>undefined\<close> is \<open>None\<close>; the object
  \<^verbatim>\<open>{}\<close> has every field \<open>None\<close>.
\<close>

record data =
  meta :: "meta option"
  matter :: "(string \<times> string) list option"
  navSortSelf :: "int option"
  navExclude :: "bool option"

definition empty_data :: data where
  "empty_data = \<lparr>meta = None, matter = None, navSortSelf = None, navExclude = None\<rparr>"

text \<open>An element of \<^verbatim>\<open>allInfo\<close> (line 109), with the fields the later phases read.\<close>

record info =
  name :: string
  jsonUrl :: string
  data :: data

text \<open>
  \<^verbatim>\<open>Item\<close>: a node of the navigation tree, \<^verbatim>\<open>{name, data, children}\<close>, with its
  children by value.
\<close>

datatype item = Item (iname: string) (idata: data) (children: "item list")

subsection \<open>Strings and arrays\<close>

text \<open>\<^verbatim>\<open>s.split('/')\<close>: the pieces between the slashes; never the empty array.\<close>

fun split_slash :: "string \<Rightarrow> string list" where
  "split_slash [] = [[]]"
| "split_slash (c # cs) =
     (if c = CHR ''/'' then [] # split_slash cs
      else (case split_slash cs of
              [] \<Rightarrow> [[c]]
            | piece # pieces \<Rightarrow> (c # piece) # pieces))"

text \<open>\<^verbatim>\<open>xs.join('/')\<close>.\<close>

fun join_slash :: "string list \<Rightarrow> string" where
  "join_slash [] = []"
| "join_slash [x] = x"
| "join_slash (x # y # ys) = x @ ''/'' @ join_slash (y # ys)"

text \<open>\<^verbatim>\<open>xs.find(p)\<close> returns the first element that satisfies \<open>p\<close>; the model returns its index.\<close>

fun find_index :: "('a \<Rightarrow> bool) \<Rightarrow> 'a list \<Rightarrow> nat option" where
  "find_index p [] = None"
| "find_index p (x # xs) =
     (if p x then Some 0 else map_option Suc (find_index p xs))"

subsection \<open>The navigation tree (lines 114 to 139)\<close>

text \<open>\<^verbatim>\<open>if (data.navExclude) continue\<close>: the flag is a boolean or undefined.\<close>

definition excluded :: "info \<Rightarrow> bool" where
  "excluded d = (navExclude (data d) = Some True)"

text \<open>
  The inner loop (lines 126 to 138), from the value \<open>partIndex\<close> has before the test
  \<^verbatim>\<open>++partIndex < parts.length\<close>. The result is the node \<open>context\<close> as it is after
  the loop and the assignment \<^verbatim>\<open>context.data = data\<close> have changed it or a node
  below it.
\<close>

function walk :: "string list \<Rightarrow> nat \<Rightarrow> data \<Rightarrow> item \<Rightarrow> item" where
  "walk parts partIndex dat context =
     (if Suc partIndex < length parts then
        (let nm = join_slash (take (Suc partIndex + 1) parts) @ ''/'' in
         case find_index (\<lambda>d. iname d = nm) (children context) of
           None \<Rightarrow>
             Item (iname context) (idata context)
               (children context @ [walk parts (Suc partIndex) dat (Item nm empty_data [])])
         | Some k \<Rightarrow>
             Item (iname context) (idata context)
               ((children context)[k := walk parts (Suc partIndex) dat (children context ! k)]))
      else Item (iname context) dat (children context))"
  by pat_completeness auto
termination
  by (relation "measure (\<lambda>(parts, partIndex, dat, context). length parts - partIndex)") auto

declare walk.simps [simp del]

text \<open>One round of the outer loop (lines 119 to 138).\<close>

definition step :: "info \<Rightarrow> item \<Rightarrow> item" where
  "step d navTree =
     (let parts = butlast (split_slash (name d)) in
      if excluded d then navTree else walk parts 0 (data d) navTree)"

text \<open>The outer loop over \<^verbatim>\<open>allInfo\<close>, in array order.\<close>

fun build :: "info list \<Rightarrow> item \<Rightarrow> item" where
  "build [] navTree = navTree"
| "build (d # ds) navTree = build ds (step d navTree)"

definition navTree :: "info list \<Rightarrow> item" where
  "navTree allInfo = build allInfo (Item ''/'' empty_data [])"


subsection \<open>The same loops on a store of objects\<close>

text \<open>
  The script builds the tree in place: \<^verbatim>\<open>context\<close> is a reference to an object, line
  132 pushes a reference to a new object, and line 138 assigns a field. Here the
  objects live in a store under addresses, a reference is an address, and every
  object literal takes the next address.
\<close>

type_synonym addr = nat

text \<open>
  An object \<^verbatim>\<open>{name, data, children}\<close>; the children are references. The data
  is held by value: lines 114 to 139 change no data object.
\<close>

record obj =
  oname :: string
  odata :: data
  ochildren :: "addr list"

text \<open>The store: the objects, and the address the next new object takes.\<close>

record store =
  heap :: "addr \<Rightarrow> obj option"
  fresh :: addr

text \<open>\<^verbatim>\<open>{name, data: {}, children: []}\<close> (lines 115 and 131).\<close>

definition new_item :: "string \<Rightarrow> store \<Rightarrow> addr \<times> store" where
  "new_item nm s =
     (fresh s,
      s\<lparr>heap := (heap s)(fresh s \<mapsto> \<lparr>oname = nm, odata = empty_data, ochildren = []\<rparr>),
        fresh := Suc (fresh s)\<rparr>)"

text \<open>\<^verbatim>\<open>context.children.find((d) => d.name === name)\<close> (line 128).\<close>

definition find_child :: "store \<Rightarrow> addr \<Rightarrow> string \<Rightarrow> addr option" where
  "find_child s context nm =
     (case heap s context of
        None \<Rightarrow> None
      | Some c \<Rightarrow>
          List.find (\<lambda>a. case heap s a of None \<Rightarrow> False | Some d \<Rightarrow> oname d = nm) (ochildren c))"

text \<open>\<^verbatim>\<open>context.children.push(contextItem)\<close> (line 132).\<close>

definition push_child :: "addr \<Rightarrow> addr \<Rightarrow> store \<Rightarrow> store" where
  "push_child context a s =
     (case heap s context of
        None \<Rightarrow> s
      | Some c \<Rightarrow> s\<lparr>heap := (heap s)(context \<mapsto> c\<lparr>ochildren := ochildren c @ [a]\<rparr>)\<rparr>)"

text \<open>\<^verbatim>\<open>context.data = data\<close> (line 138).\<close>

definition set_data :: "addr \<Rightarrow> data \<Rightarrow> store \<Rightarrow> store" where
  "set_data context dat s =
     (case heap s context of
        None \<Rightarrow> s
      | Some c \<Rightarrow> s\<lparr>heap := (heap s)(context \<mapsto> c\<lparr>odata := dat\<rparr>)\<rparr>)"

text \<open>The inner loop and the assignment after it (lines 126 to 138), as the script runs them.\<close>

function walk_store :: "string list \<Rightarrow> nat \<Rightarrow> data \<Rightarrow> addr \<Rightarrow> store \<Rightarrow> store" where
  "walk_store parts partIndex dat context s =
     (if Suc partIndex < length parts then
        (let nm = join_slash (take (Suc partIndex + 1) parts) @ ''/'' in
         case find_child s context nm of
           None \<Rightarrow>
             (let (contextItem, s') = new_item nm s
              in walk_store parts (Suc partIndex) dat contextItem (push_child context contextItem s'))
         | Some contextItem \<Rightarrow> walk_store parts (Suc partIndex) dat contextItem s)
      else set_data context dat s)"
  by pat_completeness auto
termination
  by (relation "measure (\<lambda>(parts, partIndex, dat, context, s). length parts - partIndex)") auto

declare walk_store.simps [simp del]

text \<open>One round of the outer loop, from \<^verbatim>\<open>context = navTree\<close>.\<close>

definition step_store :: "addr \<Rightarrow> info \<Rightarrow> store \<Rightarrow> store" where
  "step_store root d s =
     (let parts = butlast (split_slash (name d)) in
      if excluded d then s else walk_store parts 0 (data d) root s)"

fun build_store :: "addr \<Rightarrow> info list \<Rightarrow> store \<Rightarrow> store" where
  "build_store root [] s = s"
| "build_store root (d # ds) s = build_store root ds (step_store root d s)"

text \<open>Lines 115 to 139: the root object and the store after the loop.\<close>

definition navTree_store :: "info list \<Rightarrow> store \<Rightarrow> addr \<times> store" where
  "navTree_store allInfo s =
     (let (root, s') = new_item ''/'' s in (root, build_store root allInfo s'))"


subsection \<open>Configuration and the functions of other packages\<close>

text \<open>
  \<^verbatim>\<open>config\<close> comes from \<^verbatim>\<open>docs/_config.js\<close>: the two URLs the modelled lines read,
  each as its \<^verbatim>\<open>href\<close>.
\<close>

record config =
  site :: string
  output_url :: string

text \<open>An entry handed to \<^verbatim>\<open>sitemap\<close> (lines 145 to 149).\<close>

record entry =
  url :: string
  modified :: "int option"
  lang :: string

text \<open>A call of \<^verbatim>\<open>fs.writeFile\<close>: the file and what is written to it.\<close>

record file_write =
  path :: string
  contents :: string

text \<open>
  What the script calls and does not define. \<open>URL rel base\<close> is
  \<^verbatim>\<open>new URL(rel, base).href\<close>; \<open>stringify\<close> is \<^verbatim>\<open>JSON.stringify\<close>; \<open>toXml\<close> is
  \<^verbatim>\<open>toXml(sitemap(entries))\<close>; \<open>render d navTree\<close> is the HTML that lines 165 to 247
  make of a document and the tree, and \<open>None\<close> when one of them throws.
\<close>

record externals =
  URL :: "string \<Rightarrow> string \<Rightarrow> string"
  stringify :: "data \<Rightarrow> string"
  toXml :: "entry list \<Rightarrow> string"
  render :: "info \<Rightarrow> item \<Rightarrow> string option"

datatype error = RenderError string

subsection \<open>The loader (lines 64 to 112)\<close>

text \<open>\<^verbatim>\<open>s.slice(i)\<close>: a negative index counts from the end.\<close>

definition slice_from :: "int \<Rightarrow> string \<Rightarrow> string" where
  "slice_from i s = (if i < 0 then drop (nat (int (length s) + i)) s else drop (nat i) s)"

text \<open>\<^verbatim>\<open>s.replace(/\.mdx?$/, '/')\<close>.\<close>

definition replace_ext :: "string \<Rightarrow> string" where
  "replace_ext s =
     (if suffix ''.mdx'' s then take (length s - 4) s @ ''/''
      else if suffix ''.md'' s then take (length s - 3) s @ ''/''
      else s)"

text \<open>\<^verbatim>\<open>s.replace(/\/index\/$/, '/')\<close>.\<close>

definition replace_index :: "string \<Rightarrow> string" where
  "replace_index s = (if suffix ''/index/'' s then take (length s - 7) s @ ''/'' else s)"

text \<open>The name of a document (lines 66 to 69), from the input directory's URL and the file's.\<close>

definition page_name :: "string \<Rightarrow> string \<Rightarrow> string" where
  "page_name input_href url_href =
     replace_index (replace_ext (slice_from (int (length input_href) - 1) url_href))"

text \<open>
  The element of \<^verbatim>\<open>allInfo\<close> for a name and the data of the module (lines 70 and
  109). The data is taken as it is after lines 75 to 107.
\<close>

definition load :: "externals \<Rightarrow> config \<Rightarrow> string \<Rightarrow> data \<Rightarrow> info" where
  "load X cfg nm dat =
     \<lparr>name = nm, jsonUrl = URL X (''.'' @ nm @ ''index.json'') (output_url cfg), data = dat\<rparr>"

subsection \<open>The sitemap (lines 141 to 152)\<close>

text \<open>
  \<^verbatim>\<open>d.data && d.data.meta && d.data.meta.modified\<close> is undefined when the metadata is.
\<close>

definition sitemap_entries :: "externals \<Rightarrow> config \<Rightarrow> info list \<Rightarrow> entry list" where
  "sitemap_entries X cfg allInfo =
     map (\<lambda>d. \<lparr>url = URL X (name d) (site cfg),
               modified = (case meta (data d) of None \<Rightarrow> None | Some m \<Rightarrow> meta.modified m),
               lang = ''en''\<rparr>) allInfo"

text \<open>
  The call of \<^verbatim>\<open>fs.writeFile\<close> of lines 141 to 152: the file \<^verbatim>\<open>sitemap.xml\<close> in
  the output directory, and what \<^verbatim>\<open>toXml(sitemap(...))\<close> makes of the entries.
\<close>

definition sitemap_write :: "externals \<Rightarrow> config \<Rightarrow> info list \<Rightarrow> file_write" where
  "sitemap_write X cfg allInfo =
     \<lparr>path = URL X ''sitemap.xml'' (output_url cfg),
      contents = toXml X (sitemap_entries X cfg allInfo)\<rparr>"

subsection \<open>The files of the documents (lines 158 to 254)\<close>

text \<open>
  The task of one document: the JSON file is written first (line 163), then the
  document is rendered, then the HTML file is written beside the JSON file (lines 243
  and 250). Creating the directories writes no file.
\<close>

definition page_task :: "externals \<Rightarrow> item \<Rightarrow> info \<Rightarrow> error + file_write list" where
  "page_task X tree d =
     (case render X d tree of
        None \<Rightarrow> Inl (RenderError (name d))
      | Some html \<Rightarrow>
          Inr [\<lparr>path = jsonUrl d, contents = stringify X (data d)\<rparr>,
               \<lparr>path = URL X ''index.html'' (jsonUrl d), contents = html\<rparr>])"

text \<open>
  \<^verbatim>\<open>pAll\<close> runs one task per element of \<^verbatim>\<open>allInfo\<close> and fails when a task fails.
  When every task succeeds, each has made its two writes, whatever the order in which
  the tasks ran; the model lists the writes in the order of the documents.
\<close>

fun render_phase :: "externals \<Rightarrow> item \<Rightarrow> info list \<Rightarrow> error + file_write list" where
  "render_phase X tree [] = Inr []"
| "render_phase X tree (d # ds) =
     (case page_task X tree d of
        Inl e \<Rightarrow> Inl e
      | Inr ws \<Rightarrow>
          (case render_phase X tree ds of
             Inl e \<Rightarrow> Inl e
           | Inr ws' \<Rightarrow> Inr (ws @ ws')))"


subsection \<open>The whole run\<close>

text \<open>
  The files a run writes when no step fails: the sitemap, then the files of the
  documents. The documents are given by name and data, as the loader has them.
\<close>

definition generate :: "externals \<Rightarrow> config \<Rightarrow> (string \<times> data) list \<Rightarrow> error + file_write list" where
  "generate X cfg mods =
     (let allInfo = map (\<lambda>(nm, dat). load X cfg nm dat) mods;
          tree = navTree allInfo;
          sm = \<lparr>path = URL X ''sitemap.xml'' (output_url cfg),
                contents = toXml X (sitemap_entries X cfg allInfo)\<rparr>
      in case render_phase X tree allInfo of
           Inl e \<Rightarrow> Inl e
         | Inr ws \<Rightarrow> Inr (sm # ws))"

subsection \<open>Example documents and an example environment\<close>

text \<open>A document with a title in its metadata, excluded from the navigation or not.\<close>

definition page :: "string \<Rightarrow> string \<Rightarrow> bool \<Rightarrow> info" where
  "page nm ttl ex =
     \<lparr>name = nm, jsonUrl = ''file:///repo/public'' @ nm @ ''index.json'',
      data = \<lparr>meta = Some \<lparr>title = Some ttl, author = None, published = None, modified = None\<rparr>,
        matter = None, navSortSelf = None,
        navExclude = (if ex then Some True else None)\<rparr>\<rparr>"





section \<open>The inner loop as a recursion over the prefix paths\<close>

text \<open>
  The names the inner loop computes, one per round: each is the one before it with
  a further part and a slash.
\<close>

fun chain_names :: "string \<Rightarrow> string list \<Rightarrow> string list" where
  "chain_names base [] = []"
| "chain_names base (s # ss) = (base @ s @ ''/'') # chain_names (base @ s @ ''/'') ss"

text \<open>The prefix paths of a document name, the shallowest first.\<close>

definition pnames :: "string \<Rightarrow> string list" where
  "pnames nm =
     (case butlast (split_slash nm) of
        [] \<Rightarrow> []
      | p # segs \<Rightarrow> chain_names (p @ ''/'') segs)"

text \<open>The walk along given names: find or create the child, descend, attach at the end.\<close>

fun ins :: "string list \<Rightarrow> data \<Rightarrow> item \<Rightarrow> item" where
  "ins [] dat (Item n x cs) = Item n dat cs"
| "ins (q # qs) dat (Item n x cs) =
     (case find_index (\<lambda>c. iname c = q) cs of
        None \<Rightarrow> Item n x (cs @ [ins qs dat (Item q empty_data [])])
      | Some k \<Rightarrow> Item n x (cs[k := ins qs dat (cs ! k)]))"


section \<open>Vocabulary of the properties\<close>

subsection \<open>Nodes and paths\<close>

text \<open>All nodes of a tree: the node itself, then the nodes under each child, in order.\<close>

fun nodes :: "item \<Rightarrow> item list" where
  "nodes (Item n x cs) = Item n x cs # concat (map nodes cs)"

text \<open>The paths of all nodes of a tree.\<close>

definition node_names :: "item \<Rightarrow> string list" where
  "node_names t = map iname (nodes t)"

text \<open>The tree has a node with the given path and data.\<close>

definition has_node :: "item \<Rightarrow> string \<Rightarrow> data \<Rightarrow> bool" where
  "has_node t nm dat = list_ex (\<lambda>n. iname n = nm \<and> idata n = dat) (nodes t)"

text \<open>
  The node a list of names leads to from a node: at each level the first child with the
  name, as \<^verbatim>\<open>find\<close> does in the inner loop. The node at a path \<open>p\<close> of the tree \<open>t\<close>
  is \<open>node_at (pnames p) t\<close>.
\<close>

fun node_at :: "string list \<Rightarrow> item \<Rightarrow> item option" where
  "node_at [] t = Some t"
| "node_at (q # qs) t =
     (case find_index (\<lambda>c. iname c = q) (children t) of
        None \<Rightarrow> None
      | Some k \<Rightarrow> node_at qs (children t ! k))"

text \<open>
  A canonical path starts and ends with a slash. The loader gives every document such
  a name (\<open>page_name_canonical\<close> below).
\<close>

definition canonical :: "string \<Rightarrow> bool" where
  "canonical nm = (nm \<noteq> [] \<and> hd nm = CHR ''/'' \<and> last nm = CHR ''/'')"

subsection \<open>One segment deeper\<close>

text \<open>
  A child's path is one segment deeper than its parent's: it is the parent's path, then
  a segment without a slash, then a slash.
\<close>

definition one_deeper :: "string \<Rightarrow> string \<Rightarrow> bool" where
  "one_deeper parent child =
     (prefix parent child \<and>
      (let r = drop (length parent) child
       in r \<noteq> [] \<and> last r = CHR ''/'' \<and> CHR ''/'' \<notin> set (butlast r)))"

text \<open>Every child in the tree is one segment deeper than its parent.\<close>

fun deeper_inv :: "item \<Rightarrow> bool" where
  "deeper_inv (Item n x cs) = (\<forall>c\<in>set cs. one_deeper n (iname c) \<and> deeper_inv c)"

text \<open>The invariant of the tree: the root is \<^verbatim>\<open>/\<close>, and every child is one segment deeper.\<close>

definition path_inv :: "item \<Rightarrow> bool" where
  "path_inv t = (iname t = ''/'' \<and> deeper_inv t)"

text \<open>A list of paths, each one segment deeper than the one before, the first below \<open>n\<close>.\<close>

fun chained :: "string \<Rightarrow> string list \<Rightarrow> bool" where
  "chained n [] = True"
| "chained n (q # qs) = (one_deeper n q \<and> chained q qs)"

text \<open>
  For the proof that no two nodes share a path: every child of the tree stands where
  the walk along the prefix paths of its own path ends, below a node at the place
  \<open>pre\<close>, and no two children of a node share a path.
\<close>

fun placed :: "string list \<Rightarrow> item \<Rightarrow> bool" where
  "placed pre (Item n x cs) =
     (distinct (map iname cs)
      \<and> (\<forall>c\<in>set cs. pnames (iname c) = pre @ [iname c] \<and> placed (pre @ [iname c]) c))"

subsection \<open>The shape of a tree\<close>

text \<open>The tree without its data: the nodes, their paths and their places.\<close>

fun shape :: "item \<Rightarrow> item" where
  "shape (Item n x cs) = Item n empty_data (map shape cs)"

subsection \<open>The order in which paths are seen\<close>

text \<open>
  The index of the first document, among those that are not excluded, that has \<open>p\<close> as
  its path or as a prefix of its path.
\<close>

definition first_seen :: "info list \<Rightarrow> string \<Rightarrow> nat option" where
  "first_seen allInfo p = find_index (\<lambda>d. \<not> excluded d \<and> prefix p (name d)) allInfo"

text \<open>Both paths are seen, and \<open>a\<close> is seen first.\<close>

definition seen_before :: "info list \<Rightarrow> string \<Rightarrow> string \<Rightarrow> bool" where
  "seen_before allInfo a b =
     (case (first_seen allInfo a, first_seen allInfo b) of
        (Some i, Some j) \<Rightarrow> i < j
      | _ \<Rightarrow> False)"

text \<open>
  At every node of the tree, each child's path is seen, and a child that stands before
  another is seen before it.
\<close>

definition sibling_order :: "info list \<Rightarrow> item \<Rightarrow> bool" where
  "sibling_order allInfo t =
     list_all
       (\<lambda>n. sorted_wrt (seen_before allInfo) (map iname (children n))
          \<and> list_all (\<lambda>c. first_seen allInfo (iname c) \<noteq> None) (children n))
       (nodes t)"

text \<open>
  The index of the first document of the input, excluded or not, that has \<open>p\<close> as its
  path or as a prefix of its path.
\<close>

definition first_occurrence :: "info list \<Rightarrow> string \<Rightarrow> nat option" where
  "first_occurrence allInfo p = find_index (\<lambda>d. prefix p (name d)) allInfo"

text \<open>
  For the proof, by the names the loop computes: the paths seen in a list of documents,
  the index of the first document that computes a path, and a node whose children
  are in the order of a rank, with names from a set.
\<close>

definition seen :: "info list \<Rightarrow> string set" where
  "seen ds = (\<Union>d\<in>{d \<in> set ds. \<not> excluded d}. set (pnames (name d)))"

definition rank :: "info list \<Rightarrow> string \<Rightarrow> nat" where
  "rank ds p =
     (case find_index (\<lambda>d. \<not> excluded d \<and> p \<in> set (pnames (name d))) ds of
        Some i \<Rightarrow> i
      | None \<Rightarrow> length ds)"

definition ranked :: "(string \<Rightarrow> nat) \<Rightarrow> string set \<Rightarrow> item \<Rightarrow> bool" where
  "ranked r S n =
     (sorted_wrt (\<lambda>a b. r a < r b) (map iname (children n)) \<and> iname ` set (children n) \<subseteq> S)"

subsection \<open>Trees in a store\<close>

text \<open>
  The objects of a store, from an address on, are a given tree: the object at the
  address has the name and the data of the root, and its children are, one by one, the
  children of the root.
\<close>

fun represents :: "(addr \<Rightarrow> obj option) \<Rightarrow> addr \<Rightarrow> item \<Rightarrow> bool" where
  "represents h a (Item n x cs) =
     (case h a of
        None \<Rightarrow> False
      | Some c \<Rightarrow> oname c = n \<and> odata c = x \<and> list_all2 (represents h) (ochildren c) cs)"

text \<open>
  For the proof, a tree with the address of each node: the tree it stands for, its
  addresses, that a store holds it, and that no two of its nodes share an address.
\<close>

datatype atree = ANode (addr_of: addr) (aname: string) (adata: data) (asubs: "atree list")

fun erase :: "atree \<Rightarrow> item" where
  "erase (ANode a n x ts) = Item n x (map erase ts)"

fun aset :: "atree \<Rightarrow> addr set" where
  "aset (ANode a n x ts) = insert a (\<Union>t\<in>set ts. aset t)"

fun in_heap :: "(addr \<Rightarrow> obj option) \<Rightarrow> atree \<Rightarrow> bool" where
  "in_heap h (ANode a n x ts) =
     (h a = Some \<lparr>oname = n, odata = x, ochildren = map addr_of ts\<rparr> \<and> (\<forall>t\<in>set ts. in_heap h t))"

fun sep :: "atree \<Rightarrow> bool" where
  "sep (ANode a n x ts) =
     (a \<notin> (\<Union>t\<in>set ts. aset t) \<and> (\<forall>t\<in>set ts. sep t)
      \<and> (\<forall>i<length ts. \<forall>j<length ts. i \<noteq> j \<longrightarrow> aset (ts ! i) \<inter> aset (ts ! j) = {}))"


section \<open>The walk and the lookup\<close>

lemma join_slash_snoc: "xs \<noteq> [] \<Longrightarrow> join_slash (xs @ [x]) = join_slash xs @ ''/'' @ x"
  by (induction xs rule: join_slash.induct) auto

lemma walk_ins:
  "walk parts i dat t =
     ins (chain_names (join_slash (take (Suc i) parts) @ ''/'') (drop (Suc i) parts)) dat t"
proof (induction parts i dat t rule: walk.induct)
  case (1 parts i dat t)
  obtain n x cs where t: "t = Item n x cs" by (cases t)
  show ?case
  proof (cases "Suc i < length parts")
    case False
    then show ?thesis by (simp add: walk.simps [of parts i] t)
  next
    case True
    then have d: "drop (Suc i) parts = parts ! Suc i # drop (Suc (Suc i)) parts"
      by (simp add: Cons_nth_drop_Suc)
    from True have tk: "take (Suc (Suc i)) parts = take (Suc i) parts @ [parts ! Suc i]"
      by (simp add: take_Suc_conv_app_nth)
    from True have ne: "take (Suc i) parts \<noteq> []" by auto
    have j: "join_slash (take (Suc (Suc i)) parts)
        = join_slash (take (Suc i) parts) @ ''/'' @ parts ! Suc i"
      unfolding tk using ne by (rule join_slash_snoc)
    show ?thesis
      using True "1.IH"
      apply (subst walk.simps)
      apply (simp add: t d j Let_def split: option.split)
      done
  qed
qed

lemma step_ins: "step d t = (if excluded d then t else ins (pnames (name d)) (data d) t)"
  by (cases "butlast (split_slash (name d))") (simp_all add: step_def walk_ins pnames_def)


lemma find_index_Some:
  "find_index p xs = Some k \<Longrightarrow> k < length xs \<and> p (xs ! k) \<and> (\<forall>j<k. \<not> p (xs ! j))"
proof (induction xs arbitrary: k)
  case Nil
  then show ?case by simp
next
  case (Cons x xs)
  show ?case
  proof (cases "p x")
    case True
    with Cons.prems show ?thesis by simp
  next
    case False
    with Cons.prems obtain k' where k: "find_index p xs = Some k'" "k = Suc k'"
      by auto
    from Cons.IH [OF k(1)] False k(2) show ?thesis
      by (auto simp: nth_Cons split: nat.splits)
  qed
qed

lemma find_index_None: "find_index p xs = None \<longleftrightarrow> (\<forall>x\<in>set xs. \<not> p x)"
  by (induction xs) auto

lemma find_index_append:
  "find_index p (xs @ ys) =
     (case find_index p xs of
        Some k \<Rightarrow> Some k
      | None \<Rightarrow> map_option (\<lambda>k. length xs + k) (find_index p ys))"
  by (induction xs) (cases "find_index p ys"; auto split: option.splits)+

lemma find_index_cong_map: "map p xs = map p ys \<Longrightarrow> find_index p xs = find_index p ys"
proof (induction xs arbitrary: ys)
  case Nil
  then show ?case by simp
next
  case (Cons x xs)
  then obtain y ys' where "ys = y # ys'" by (cases ys) auto
  with Cons show ?case by auto
qed

lemma iname_ins [simp]: "iname (ins qs dat t) = iname t"
  by (cases t; cases qs) (auto split: option.splits)

lemma find_index_update_ins:
  "k < length cs \<Longrightarrow>
   find_index (\<lambda>c. iname c = q) (cs[k := ins qs dat (cs ! k)]) = find_index (\<lambda>c. iname c = q) cs"
  by (rule find_index_cong_map) (simp add: map_update list_update_same_conv)

lemma nodes_self: "t \<in> set (nodes t)"
  by (cases t) simp

lemma node_at_nodes: "node_at ps t = Some n \<Longrightarrow> n \<in> set (nodes t)"
proof (induction ps arbitrary: t)
  case Nil
  then show ?case by (simp add: nodes_self)
next
  case (Cons p ps)
  obtain m x cs where t: "t = Item m x cs" by (cases t)
  from Cons.prems t obtain k where k: "find_index (\<lambda>c. iname c = p) cs = Some k"
    and at: "node_at ps (cs ! k) = Some n"
    by (auto split: option.splits)
  from find_index_Some [OF k] have "cs ! k \<in> set cs" by simp
  with Cons.IH [OF at] show ?case by (auto simp: t)
qed

text \<open>After the walk the target node is there, with the new data.\<close>

lemma node_at_ins_target:
  "\<exists>n. node_at qs (ins qs dat t) = Some n \<and> idata n = dat \<and> iname n = last (iname t # qs)"
proof (induction qs arbitrary: t)
  case Nil
  then show ?case by (cases t) simp
next
  case (Cons q qs)
  obtain m x cs where t: "t = Item m x cs" by (cases t)
  show ?case
  proof (cases "find_index (\<lambda>c. iname c = q) cs")
    case None
    from Cons.IH [of "Item q empty_data []"] show ?thesis
      by (auto simp: t None find_index_append)
  next
    case (Some k)
    from find_index_Some [OF Some] have k: "k < length cs" "iname (cs ! k) = q" by auto
    from Cons.IH [of "cs ! k"] show ?thesis
      by (auto simp: t Some find_index_update_ins k)
  qed
qed

lemma node_at_ins_existing:
  "node_at qs t = Some m \<Longrightarrow> node_at qs (ins qs dat t) = Some (Item (iname m) dat (children m))"
proof (induction qs arbitrary: t)
  case Nil
  then have "t = m" by simp
  then show ?case by (cases m) simp
next
  case (Cons q qs)
  obtain n x cs where t: "t = Item n x cs" by (cases t)
  from Cons.prems t obtain k where k: "find_index (\<lambda>c. iname c = q) cs = Some k"
    and at: "node_at qs (cs ! k) = Some m"
    by (auto split: option.splits)
  from find_index_Some [OF k] have "k < length cs" by simp
  with Cons.IH [OF at] show ?case
    by (simp add: t k find_index_update_ins)
qed

text \<open>A walk to another path keeps the node at a path, its name and its data.\<close>

lemma node_at_ins_other:
  "ps \<noteq> qs \<Longrightarrow> node_at ps t = Some n \<Longrightarrow>
   \<exists>n'. node_at ps (ins qs dat t) = Some n' \<and> iname n' = iname n \<and> idata n' = idata n"
proof (induction ps arbitrary: qs t)
  case Nil
  then obtain q qs' where "qs = q # qs'" by (cases qs) auto
  with Nil show ?case by (cases t) (auto split: option.splits)
next
  case (Cons p ps)
  obtain m x cs where t: "t = Item m x cs" by (cases t)
  from Cons.prems t obtain k where k: "find_index (\<lambda>c. iname c = p) cs = Some k"
    and at: "node_at ps (cs ! k) = Some n"
    by (auto split: option.splits)
  from find_index_Some [OF k] have kl: "k < length cs" and kp: "iname (cs ! k) = p" by auto
  show ?case
  proof (cases qs)
    case Nil
    with k at show ?thesis by (simp add: t)
  next
    case qs: (Cons q qs')
    show ?thesis
    proof (cases "find_index (\<lambda>c. iname c = q) cs")
      case None
      with k at kl show ?thesis
        by (simp add: t qs find_index_append nth_append)
    next
      case (Some j)
      from find_index_Some [OF Some] have jl: "j < length cs" and jq: "iname (cs ! j) = q"
        and jmin: "\<forall>i<j. iname (cs ! i) \<noteq> q" by auto
      show ?thesis
      proof (cases "j = k")
        case True
        with kp jq have "p = q" by simp
        with Cons.prems(1) qs have "ps \<noteq> qs'" by simp
        from Cons.IH [OF this at] True kl show ?thesis
          by (simp add: t qs Some k find_index_update_ins)
      next
        case False
        with k at jl show ?thesis
          by (simp add: t qs Some find_index_update_ins)
      qed
    qed
  qed
qed

lemma build_append: "build (ds @ es) t = build es (build ds t)"
  by (induction ds arbitrary: t) auto

lemma iname_step [simp]: "iname (step d t) = iname t"
  by (simp add: step_ins)

lemma iname_build [simp]: "iname (build ds t) = iname t"
  by (induction ds arbitrary: t) auto

lemma build_keeps:
  "node_at ps t = Some n \<Longrightarrow> \<forall>d\<in>set ds. \<not> excluded d \<longrightarrow> pnames (name d) \<noteq> ps \<Longrightarrow>
   \<exists>n'. node_at ps (build ds t) = Some n' \<and> iname n' = iname n \<and> idata n' = idata n"
proof (induction ds arbitrary: t n)
  case Nil
  then show ?case by simp
next
  case (Cons d ds)
  have "\<exists>n'. node_at ps (step d t) = Some n' \<and> iname n' = iname n \<and> idata n' = idata n"
  proof (cases "excluded d")
    case True
    with Cons.prems show ?thesis by (simp add: step_ins)
  next
    case False
    with Cons.prems have "ps \<noteq> pnames (name d)" by auto
    from node_at_ins_other [OF this Cons.prems(1)] False show ?thesis
      by (simp add: step_ins)
  qed
  then obtain n1 where n1: "node_at ps (step d t) = Some n1" "iname n1 = iname n" "idata n1 = idata n"
    by blast
  from Cons.IH [OF n1(1)] Cons.prems(2) n1 show ?case by auto
qed

section \<open>Splitting and joining paths\<close>

lemma split_slash_not_Nil [simp]: "split_slash s \<noteq> []"
  by (induction s) (auto split: list.splits)

lemma join_split_slash [simp]: "join_slash (split_slash s) = s"
proof (induction s)
  case Nil
  then show ?case by simp
next
  case (Cons c s)
  obtain x xs where sp: "split_slash s = x # xs" by (cases "split_slash s") auto
  show ?case
  proof (cases "c = CHR ''/''")
    case True
    with Cons sp show ?thesis by simp
  next
    case False
    with Cons sp show ?thesis by (cases xs) auto
  qed
qed

lemma split_slash_snoc: "split_slash (s @ ''/'') = split_slash s @ [[]]"
proof (induction s)
  case Nil
  show ?case by simp
next
  case (Cons c s)
  obtain x xs where "split_slash s = x # xs" by (cases "split_slash s") auto
  with Cons show ?case by simp
qed

lemma last_chain_names:
  "segs \<noteq> [] \<Longrightarrow> last (chain_names base segs) = base @ join_slash segs @ ''/''"
proof (induction segs arbitrary: base)
  case Nil
  then show ?case by simp
next
  case (Cons s segs)
  show ?case
  proof (cases segs)
    case Nil
    then show ?thesis by simp
  next
    case (Cons s' rest)
    then have "last (chain_names base (s # segs)) = last (chain_names (base @ s @ ''/'') segs)"
      by simp
    also have "\<dots> = (base @ s @ ''/'') @ join_slash segs @ ''/''"
      using Cons.IH [of "base @ s @ ''/''"] Cons by simp
    finally show ?thesis by (simp add: Cons)
  qed
qed

lemma canonical_cases:
  "canonical nm \<longleftrightarrow> nm = ''/'' \<or> (\<exists>mid. nm = CHR ''/'' # mid @ ''/'')"
proof
  assume c: "canonical nm"
  then obtain r where r: "nm = CHR ''/'' # r" by (cases nm) (auto simp: canonical_def)
  show "nm = ''/'' \<or> (\<exists>mid. nm = CHR ''/'' # mid @ ''/'')"
  proof (cases "r = []")
    case True
    with r show ?thesis by simp
  next
    case False
    with c r have "last r = CHR ''/''" by (simp add: canonical_def)
    with False have "r = butlast r @ ''/''" by (metis append_butlast_last_id)
    with r show ?thesis by blast
  qed
next
  assume "nm = ''/'' \<or> (\<exists>mid. nm = CHR ''/'' # mid @ ''/'')"
  then show "canonical nm" by (auto simp: canonical_def)
qed

lemma pnames_root [simp]: "pnames ''/'' = []"
  by (simp add: pnames_def)

lemma pnames_slashes: "pnames (CHR ''/'' # mid @ ''/'') = chain_names ''/'' (split_slash mid)"
  by (simp add: pnames_def split_slash_snoc butlast_append)

lemma chain_names_Nil [simp]: "chain_names base segs = [] \<longleftrightarrow> segs = []"
  by (cases segs) auto

lemma last_pnames: "canonical nm \<Longrightarrow> last (''/'' # pnames nm) = nm"
  unfolding canonical_cases
  by (auto simp: pnames_slashes last_chain_names)

lemma pnames_inj: "canonical a \<Longrightarrow> canonical b \<Longrightarrow> pnames a = pnames b \<Longrightarrow> a = b"
  by (metis last_pnames)

lemma join_slash_Cons: "xs \<noteq> [] \<Longrightarrow> join_slash (x # xs) = x @ ''/'' @ join_slash xs"
  by (cases xs) auto

lemma split_slash_free: "seg \<in> set (split_slash s) \<Longrightarrow> CHR ''/'' \<notin> set seg"
proof (induction s arbitrary: seg)
  case Nil
  then show ?case by simp
next
  case (Cons c s)
  obtain x xs where sp: "split_slash s = x # xs" by (cases "split_slash s") auto
  with Cons show ?case by (auto split: if_splits)
qed

lemma one_deeper_iff:
  "one_deeper parent child \<longleftrightarrow> (\<exists>seg. CHR ''/'' \<notin> set seg \<and> child = parent @ seg @ ''/'')"
proof
  assume od: "one_deeper parent child"
  define r where "r = drop (length parent) child"
  from od have p: "child = parent @ r" and r: "r \<noteq> []" "last r = CHR ''/''" "CHR ''/'' \<notin> set (butlast r)"
    by (auto simp: one_deeper_def r_def Let_def prefix_def)
  from r have "r = butlast r @ ''/''" by (metis append_butlast_last_id)
  with p r(3) show "\<exists>seg. CHR ''/'' \<notin> set seg \<and> child = parent @ seg @ ''/''" by metis
next
  assume "\<exists>seg. CHR ''/'' \<notin> set seg \<and> child = parent @ seg @ ''/''"
  then show "one_deeper parent child"
    by (auto simp: one_deeper_def butlast_append)
qed

lemma chained_chain_names:
  "\<forall>s\<in>set segs. CHR ''/'' \<notin> set s \<Longrightarrow> chained base (chain_names base segs)"
  by (induction segs arbitrary: base) (auto simp: one_deeper_iff)

lemma chain_names_prefix:
  "q \<in> set (chain_names base segs) \<Longrightarrow> prefix q (base @ join_slash (segs @ [l]))"
proof (induction segs arbitrary: base)
  case Nil
  then show ?case by simp
next
  case (Cons s segs)
  have j: "join_slash ((s # segs) @ [l]) = s @ ''/'' @ join_slash (segs @ [l])"
    by (simp add: join_slash_Cons)
  from Cons.prems consider "q = base @ s @ ''/''" | "q \<in> set (chain_names (base @ s @ ''/'') segs)"
    by auto
  then show ?case
  proof cases
    case 1
    then show ?thesis unfolding j by simp
  next
    case 2
    from Cons.IH [OF 2] show ?thesis unfolding j by simp
  qed
qed

lemma pnames_prefix: "q \<in> set (pnames nm) \<Longrightarrow> prefix q nm"
proof -
  assume q: "q \<in> set (pnames nm)"
  then obtain p segs where b: "butlast (split_slash nm) = p # segs"
    by (cases "butlast (split_slash nm)") (auto simp: pnames_def)
  define l where "l = last (split_slash nm)"
  have "split_slash nm = butlast (split_slash nm) @ [l]" by (simp add: l_def)
  with b have sp: "split_slash nm = p # (segs @ [l])" by simp
  have "join_slash (p # (segs @ [l])) = nm"
    using join_split_slash [of nm] unfolding sp .
  then have nm: "nm = (p @ ''/'') @ join_slash (segs @ [l])"
    by (simp add: join_slash_Cons)
  from q b have "q \<in> set (chain_names (p @ ''/'') segs)" by (simp add: pnames_def)
  from chain_names_prefix [OF this, of l] nm show "prefix q nm" by metis
qed

lemma pnames_rooted:
  assumes "prefix ''/'' nm"
  shows "chained ''/'' (pnames nm)"
proof -
  from assms obtain r where r: "nm = CHR ''/'' # r" by (auto simp: prefix_def)
  have "pnames nm = chain_names ''/'' (butlast (split_slash r))"
    by (simp add: pnames_def r)
  moreover have "\<forall>s\<in>set (butlast (split_slash r)). CHR ''/'' \<notin> set s"
    using split_slash_free in_set_butlastD by metis
  ultimately show ?thesis by (simp add: chained_chain_names)
qed

lemma set_nodes_update:
  "k < length cs \<Longrightarrow>
   set (concat (map nodes (cs[k := c]))) \<subseteq> set (concat (map nodes cs)) \<union> set (nodes c)"
  using set_update_subset_insert [of cs k c] by auto

lemma names_ins: "set (node_names (ins qs dat t)) \<subseteq> set (node_names t) \<union> set qs"
proof (induction qs arbitrary: t)
  case Nil
  then show ?case by (cases t) (simp add: node_names_def)
next
  case (Cons q qs)
  obtain n x cs where t: "t = Item n x cs" by (cases t)
  show ?case
  proof (cases "find_index (\<lambda>c. iname c = q) cs")
    case None
    from Cons.IH [of "Item q empty_data []"] show ?thesis
      by (auto simp: t None node_names_def)
  next
    case (Some k)
    from find_index_Some [OF Some] have k: "k < length cs" "cs ! k \<in> set cs" by auto
    let ?c = "ins qs dat (cs ! k)"
    have A: "set (concat (map nodes (cs[k := ?c]))) \<subseteq> set (concat (map nodes cs)) \<union> set (nodes ?c)"
      by (rule set_nodes_update [OF k(1)])
    have B: "iname ` set (nodes ?c) \<subseteq> iname ` set (nodes (cs ! k)) \<union> set qs"
      using Cons.IH [of "cs ! k"] by (simp add: node_names_def)
    have C: "set (nodes (cs ! k)) \<subseteq> set (concat (map nodes cs))" using k(2) by auto
    have "iname ` set (concat (map nodes (cs[k := ?c])))
        \<subseteq> iname ` set (concat (map nodes cs)) \<union> set qs"
    proof
      fix a assume "a \<in> iname ` set (concat (map nodes (cs[k := ?c])))"
      then obtain m where m: "m \<in> set (concat (map nodes (cs[k := ?c])))" "a = iname m" by blast
      from m(1) A have "m \<in> set (concat (map nodes cs)) \<or> m \<in> set (nodes ?c)" by blast
      then show "a \<in> iname ` set (concat (map nodes cs)) \<union> set qs"
        using m(2) B C by blast
    qed
    then have D: "set (map iname (concat (map nodes (cs[k := ?c]))))
        \<subseteq> set (map iname (concat (map nodes cs))) \<union> set qs"
      by (simp only: set_map)
    define X' where "X' = map iname (concat (map nodes (cs[k := ?c])))"
    define X where "X = map iname (concat (map nodes cs))"
    have E: "node_names (ins (q # qs) dat t) = n # X'"
      by (simp add: t Some node_names_def X'_def)
    have F: "node_names t = n # X"
      by (simp add: t node_names_def X_def)
    from D have "set X' \<subseteq> set X \<union> set qs" by (simp only: X'_def X_def)
    then show ?thesis unfolding E F by auto
  qed
qed

lemma split_slash_append:
  "split_slash (a @ CHR ''/'' # b) = split_slash a @ split_slash b"
proof (induction a)
  case Nil
  then show ?case by simp
next
  case (Cons c a)
  obtain x xs where "split_slash a = x # xs" by (cases "split_slash a") auto
  with Cons show ?case by simp
qed

lemma split_slash_free_id: "CHR ''/'' \<notin> set s \<Longrightarrow> split_slash s = [s]"
  by (induction s) auto

lemma split_join_slash:
  "xs \<noteq> [] \<Longrightarrow> \<forall>s\<in>set xs. CHR ''/'' \<notin> set s \<Longrightarrow> split_slash (join_slash xs) = xs"
proof (induction xs rule: join_slash.induct)
  case 1
  then show ?case by simp
next
  case (2 x)
  then show ?case by (simp add: split_slash_free_id)
next
  case (3 x y ys)
  then show ?case by (simp add: split_slash_append split_slash_free_id)
qed

lemma length_chain_names [simp]: "length (chain_names base segs) = length segs"
  by (induction segs arbitrary: base) auto

lemma nth_chain_names:
  "k < length segs \<Longrightarrow> chain_names base segs ! k = base @ join_slash (take (Suc k) segs) @ ''/''"
proof (induction segs arbitrary: base k)
  case Nil
  then show ?case by simp
next
  case (Cons s segs)
  show ?case
  proof (cases k)
    case 0
    then show ?thesis by simp
  next
    case (Suc k')
    with Cons.prems have k': "k' < length segs" by simp
    then have ne: "take (Suc k') segs \<noteq> []" by (cases segs) auto
    from Cons.IH [OF k', of "base @ s @ ''/''"] Suc show ?thesis
      by (simp add: join_slash_Cons [OF ne])
  qed
qed

lemma take_chain_names: "take k (chain_names base segs) = chain_names base (take k segs)"
proof (induction segs arbitrary: base k)
  case Nil
  then show ?case by simp
next
  case (Cons s segs)
  then show ?case by (cases k) auto
qed

lemma parts_slash_free: "s \<in> set (butlast (split_slash nm)) \<Longrightarrow> CHR ''/'' \<notin> set s"
  using split_slash_free in_set_butlastD by metis

text \<open>The prefix paths of a prefix path are the prefix paths up to it.\<close>

lemma pnames_chain:
  assumes k: "k < length (pnames nm)"
  shows "pnames (pnames nm ! k) = take (Suc k) (pnames nm)"
proof -
  from k obtain p segs where b: "butlast (split_slash nm) = p # segs"
    by (cases "butlast (split_slash nm)") (auto simp: pnames_def)
  then have pn: "pnames nm = chain_names (p @ ''/'') segs" by (simp add: pnames_def)
  with k have ks: "k < length segs" by simp
  then have ne: "take (Suc k) segs \<noteq> []" by (cases segs) auto
  let ?xs = "p # take (Suc k) segs @ [[]]"
  have free: "\<forall>s\<in>set ?xs. CHR ''/'' \<notin> set s"
  proof
    fix s assume "s \<in> set ?xs"
    then have "s = [] \<or> s \<in> set (p # segs)" by (auto dest: in_set_takeD)
    then show "CHR ''/'' \<notin> set s" using parts_slash_free [of s nm] b by auto
  qed
  have "pnames nm ! k = (p @ ''/'') @ join_slash (take (Suc k) segs) @ ''/''"
    unfolding pn by (rule nth_chain_names [OF ks])
  also have "\<dots> = join_slash ?xs"
    using ne by (simp add: join_slash_Cons join_slash_snoc)
  finally have "split_slash (pnames nm ! k) = ?xs"
    using split_join_slash [OF _ free] by simp
  then have "butlast (split_slash (pnames nm ! k)) = p # take (Suc k) segs"
    by (simp add: butlast_append)
  then have "pnames (pnames nm ! k) = chain_names (p @ ''/'') (take (Suc k) segs)"
    by (simp add: pnames_def)
  then show ?thesis by (simp add: pn take_chain_names)
qed

text \<open>
  Among names that start with a slash, a prefix path of one name that is a prefix of
  another name is a prefix path of that name too.
\<close>

lemma rooted_parts:
  "prefix ''/'' nm \<Longrightarrow> \<exists>r. nm = CHR ''/'' # r \<and> pnames nm = chain_names ''/'' (butlast (split_slash r))"
  by (auto simp: prefix_def pnames_def)

lemma prefix_pnames:
  assumes nm: "prefix ''/'' nm" and nm': "prefix ''/'' nm'"
    and p: "p \<in> set (pnames nm')" and pre: "prefix p nm"
  shows "p \<in> set (pnames nm)"
proof -
  from rooted_parts [OF nm] obtain r where r: "nm = CHR ''/'' # r"
    "pnames nm = chain_names ''/'' (butlast (split_slash r))" by blast
  from rooted_parts [OF nm'] obtain r' where r': "nm' = CHR ''/'' # r'"
    "pnames nm' = chain_names ''/'' (butlast (split_slash r'))" by blast
  let ?segs' = "butlast (split_slash r')"
  from p r'(2) obtain k where k: "k < length ?segs'" "p = chain_names ''/'' ?segs' ! k"
    by (auto simp: in_set_conv_nth)
  let ?xs = "take (Suc k) ?segs'"
  from k(1) have ne: "?xs \<noteq> []" by (cases ?segs') auto
  have free: "\<forall>s\<in>set ?xs. CHR ''/'' \<notin> set s"
    using parts_slash_free [of _ r'] by (auto dest: in_set_takeD)
  from k have pe: "p = ''/'' @ join_slash ?xs @ ''/''" by (simp add: nth_chain_names)
  with pre r(1) obtain rest where rest: "r = join_slash ?xs @ CHR ''/'' # rest"
    by (auto simp: prefix_def)
  have "split_slash r = ?xs @ split_slash rest"
    unfolding rest by (simp add: split_slash_append split_join_slash [OF ne free])
  then have bl: "butlast (split_slash r) = ?xs @ butlast (split_slash rest)"
    by (simp add: butlast_append)
  have lx: "length ?xs = Suc k" using k(1) by simp
  have "chain_names ''/'' (butlast (split_slash r)) ! k = ''/'' @ join_slash ?xs @ ''/''"
    unfolding bl using nth_chain_names [of k "?xs @ butlast (split_slash rest)" "''/''"] lx
    by simp
  moreover have "k < length (chain_names ''/'' (butlast (split_slash r)))"
    unfolding bl using lx by simp
  ultimately show ?thesis unfolding r(2) pe by (metis nth_mem)
qed

text \<open>The loader gives every document under the input directory a canonical path.\<close>

lemma page_name_canonical:
  assumes "input_href \<noteq> []" and "last input_href = CHR ''/''"
    and "suffix ''.md'' rel \<or> suffix ''.mdx'' rel"
  shows "canonical (page_name input_href (input_href @ rel))"
proof -
  have cut: "slice_from (int (length input_href) - 1) (input_href @ rel) = CHR ''/'' # rel"
  proof -
    from assms(1,2) have "input_href = butlast input_href @ ''/''"
      by (metis append_butlast_last_id)
    then obtain b where b: "input_href = b @ ''/''" ..
    then show ?thesis by (simp add: slice_from_def)
  qed
  have ext: "\<exists>stem. replace_ext (CHR ''/'' # rel) = CHR ''/'' # stem @ ''/''"
  proof (cases "suffix ''.mdx'' rel")
    case True
    then obtain stem where "rel = stem @ ''.mdx''" by (auto simp: suffix_def)
    then show ?thesis by (auto simp: replace_ext_def suffix_def)
  next
    case False
    with assms(3) obtain stem where s: "rel = stem @ ''.md''" by (auto simp: suffix_def)
    from False have "\<not> suffix ''.mdx'' (CHR ''/'' # rel)"
      by (auto simp: suffix_def Cons_eq_append_conv)
    with s show ?thesis by (auto simp: replace_ext_def suffix_def)
  qed
  then obtain stem where stem: "replace_ext (CHR ''/'' # rel) = CHR ''/'' # stem @ ''/''" ..
  have "canonical (replace_index (CHR ''/'' # stem @ ''/''))"
  proof (cases "suffix ''/index/'' (CHR ''/'' # stem @ ''/'')")
    case False
    then show ?thesis by (simp add: replace_index_def canonical_def)
  next
    case True
    then obtain pre where pre: "CHR ''/'' # stem @ ''/'' = pre @ ''/index/''"
      by (auto simp: suffix_def)
    have "suffix ''/index/'' (pre @ ''/index/'')" by (rule suffixI) simp
    then have ri: "replace_index (pre @ ''/index/'') = pre @ ''/''"
      by (simp add: replace_index_def)
    have "replace_index (CHR ''/'' # stem @ ''/'') = pre @ ''/''"
      unfolding pre by (rule ri)
    moreover from pre have "pre = [] \<or> (pre \<noteq> [] \<and> hd pre = CHR ''/'')"
      by (cases pre) auto
    ultimately show ?thesis by (auto simp: canonical_def hd_append)
  qed
  with cut stem show ?thesis by (simp add: page_name_def)
qed


section \<open>No two nodes share a path\<close>

lemma placed_ins:
  assumes "placed pre t"
    and "\<forall>k<length qs. pnames (qs ! k) = pre @ take (Suc k) qs"
  shows "placed pre (ins qs dat t)"
  using assms
proof (induction qs arbitrary: t pre)
  case Nil
  then show ?case by (cases t) simp
next
  case (Cons q qs)
  obtain n x cs where t: "t = Item n x cs" by (cases t)
  from Cons.prems(2) have q: "pnames q = pre @ [q]" by fastforce
  have rest: "\<forall>k<length qs. pnames (qs ! k) = (pre @ [q]) @ take (Suc k) qs"
  proof (intro allI impI)
    fix k assume "k < length qs"
    then have "Suc k < length (q # qs)" by simp
    with Cons.prems(2) have "pnames ((q # qs) ! Suc k) = pre @ take (Suc (Suc k)) (q # qs)"
      by blast
    then show "pnames (qs ! k) = (pre @ [q]) @ take (Suc k) qs" by simp
  qed
  show ?case
  proof (cases "find_index (\<lambda>c. iname c = q) cs")
    case None
    then have "q \<notin> iname ` set cs" by (auto simp: find_index_None)
    moreover have "placed (pre @ [q]) (ins qs dat (Item q empty_data []))"
      by (rule Cons.IH [OF _ rest]) simp
    ultimately show ?thesis using Cons.prems(1) q by (auto simp: t None)
  next
    case (Some k)
    from find_index_Some [OF Some] have k: "k < length cs" "iname (cs ! k) = q" by auto
    then have mem: "cs ! k \<in> set cs" by simp
    with Cons.prems(1) k(2) have "placed (pre @ [q]) (cs ! k)" by (auto simp: t)
    then have new: "placed (pre @ [q]) (ins qs dat (cs ! k))"
      by (rule Cons.IH [OF _ rest])
    have names: "map iname (cs[k := ins qs dat (cs ! k)]) = map iname cs"
      using k by (simp add: map_update list_update_same_conv)
    have "pnames (iname c) = pre @ [iname c] \<and> placed (pre @ [iname c]) c"
      if "c \<in> set (cs[k := ins qs dat (cs ! k)])" for c
    proof -
      from that set_update_subset_insert [of cs k "ins qs dat (cs ! k)"]
      have "c = ins qs dat (cs ! k) \<or> c \<in> set cs" by auto
      then show ?thesis
      proof
        assume "c = ins qs dat (cs ! k)"
        with new q k(2) show ?thesis by simp
      next
        assume "c \<in> set cs"
        with Cons.prems(1) show ?thesis by (simp add: t)
      qed
    qed
    with Cons.prems(1) names show ?thesis by (simp add: t Some)
  qed
qed

lemma placed_build: "placed [] t \<Longrightarrow> placed [] (build ds t)"
proof (induction ds arbitrary: t)
  case Nil
  then show ?case by simp
next
  case (Cons d ds)
  have "placed [] (step d t)"
    using Cons.prems placed_ins [of "[]" t "pnames (name d)" "data d"] pnames_chain [of _ "name d"]
    by (simp add: step_ins)
  then show ?case using Cons.IH by simp
qed

text \<open>Below a placed node every path has the place of the node as a proper prefix.\<close>

lemma placed_below:
  "placed pre t \<Longrightarrow> m \<in> set (concat (map nodes (children t))) \<Longrightarrow>
   \<exists>c\<in>set (children t). \<exists>suf. pnames (iname m) = pre @ iname c # suf \<and> m \<in> set (nodes c)"
proof (induction t arbitrary: pre m)
  case (Item n x cs)
  from Item.prems(2) obtain c where c: "c \<in> set cs" "m \<in> set (nodes c)" by auto
  from Item.prems(1) c(1) have pc: "pnames (iname c) = pre @ [iname c]" "placed (pre @ [iname c]) c"
    by auto
  have "\<exists>suf. pnames (iname m) = pre @ iname c # suf"
  proof (cases "m = c")
    case True
    with pc(1) show ?thesis by simp
  next
    case False
    with c(2) have "m \<in> set (concat (map nodes (children c)))" by (cases c) auto
    from Item.IH [OF c(1) pc(2) this] show ?thesis by auto
  qed
  with c show ?case by auto
qed

lemma hd_node_names: "hd (node_names c) = iname c"
  by (cases c) (simp add: node_names_def)

lemma placed_distinct:
  "placed pre t \<Longrightarrow> pnames (iname t) = pre \<Longrightarrow> distinct (node_names t)"
proof (induction t arbitrary: pre)
  case (Item n x cs)
  have sub: "distinct (node_names c)" if "c \<in> set cs" for c
    using that Item.prems(1) Item.IH [of c "pre @ [iname c]"] by auto
  have below: "\<exists>c\<in>set cs. \<exists>suf. pnames (iname m) = pre @ iname c # suf \<and> m \<in> set (nodes c)"
    if "m \<in> set (concat (map nodes cs))" for m
    using placed_below [OF Item.prems(1)] that by simp
  have root: "n \<notin> iname ` set (concat (map nodes cs))"
  proof
    assume "n \<in> iname ` set (concat (map nodes cs))"
    then obtain m where m: "m \<in> set (concat (map nodes cs))" "iname m = n" by auto
    from below [OF m(1)] m(2) Item.prems(2) show False by auto
  qed
  have dc: "distinct (concat (map node_names cs))"
  proof (rule distinct_concat)
    from Item.prems(1) have dm: "distinct cs" "inj_on iname (set cs)"
      by (simp_all add: distinct_map)
    have "inj_on node_names (set cs)"
    proof (rule inj_onI)
      fix c d assume cd: "c \<in> set cs" "d \<in> set cs" "node_names c = node_names d"
      then have "iname c = iname d" by (metis hd_node_names)
      with dm(2) cd(1,2) show "c = d" by (auto dest: inj_onD)
    qed
    with dm(1) show "distinct (map node_names cs)" by (simp add: distinct_map)
  next
    fix ys assume "ys \<in> set (map node_names cs)"
    then show "distinct ys" using sub by auto
  next
    fix ys zs assume "ys \<in> set (map node_names cs)" "zs \<in> set (map node_names cs)" "ys \<noteq> zs"
    then obtain c d where cd: "c \<in> set cs" "d \<in> set cs" "ys = node_names c" "zs = node_names d"
      "c \<noteq> d" by auto
    from Item.prems(1) have "inj_on iname (set cs)" by (simp add: distinct_map)
    with cd(1,2,5) have ne: "iname c \<noteq> iname d" by (auto dest: inj_onD)
    show "set ys \<inter> set zs = {}"
    proof (rule ccontr)
      assume "set ys \<inter> set zs \<noteq> {}"
      then obtain a where a: "a \<in> set (node_names c)" "a \<in> set (node_names d)"
        using cd(3,4) by auto
      have key: "\<exists>suf. pnames (iname m) = pre @ iname e # suf"
        if "e \<in> set cs" "m \<in> set (nodes e)" for e m
      proof (cases "m = e")
        case True
        with Item.prems(1) that(1) show ?thesis by auto
      next
        case False
        with that(2) have "m \<in> set (concat (map nodes (children e)))" by (cases e) auto
        moreover from Item.prems(1) that(1) have "placed (pre @ [iname e]) e" by auto
        ultimately show ?thesis using placed_below by fastforce
      qed
      from a obtain m1 m2 where m: "m1 \<in> set (nodes c)" "iname m1 = a"
        "m2 \<in> set (nodes d)" "iname m2 = a"
        by (auto simp: node_names_def)
      from key [OF cd(1) m(1)] m(2) obtain suf1 where 1: "pnames a = pre @ iname c # suf1" by auto
      from key [OF cd(2) m(3)] m(4) obtain suf2 where 2: "pnames a = pre @ iname d # suf2" by auto
      from 1 2 ne show False by simp
    qed
  qed
  have nn: "node_names (Item n x cs) = n # concat (map node_names cs)"
    unfolding node_names_def by (simp add: map_concat comp_def)
  have "concat (map node_names cs) = map iname (concat (map nodes cs))"
    unfolding node_names_def by (simp add: map_concat comp_def)
  with root have "n \<notin> set (concat (map node_names cs))" by simp
  with dc show ?case unfolding nn by simp
qed

lemma navTree_distinct: "distinct (node_names (navTree allInfo))"
proof -
  have "placed [] (navTree allInfo)" unfolding navTree_def by (rule placed_build) simp
  moreover have "pnames (iname (navTree allInfo)) = []" by (simp add: navTree_def)
  ultimately show ?thesis by (rule placed_distinct)
qed


section \<open>Documents in the tree\<close>

lemma navTree_target:
  assumes "\<not> excluded d"
    and "\<forall>e\<in>set ds2. \<not> excluded e \<longrightarrow> pnames (name e) \<noteq> pnames (name d)"
  shows "\<exists>n. node_at (pnames (name d)) (navTree (ds1 @ d # ds2)) = Some n
    \<and> idata n = data d \<and> iname n = last (''/'' # pnames (name d))"
proof -
  let ?t1 = "build ds1 (Item ''/'' empty_data [])"
  have nt: "navTree (ds1 @ d # ds2) = build ds2 (step d ?t1)"
    by (simp add: navTree_def build_append)
  from node_at_ins_target [of "pnames (name d)" "data d" ?t1] assms(1)
  obtain n where n: "node_at (pnames (name d)) (step d ?t1) = Some n"
    "idata n = data d" "iname n = last (''/'' # pnames (name d))"
    by (auto simp: step_ins)
  from build_keeps [OF n(1) assms(2)] n show ?thesis
    unfolding nt by auto
qed
lemma navTree_canonical_target:
  assumes can: "\<forall>e\<in>set (ds1 @ d # ds2). \<not> excluded e \<longrightarrow> canonical (name e)"
    and d: "\<not> excluded d"
    and later: "\<forall>e\<in>set ds2. \<not> excluded e \<longrightarrow> name e \<noteq> name d"
  shows "\<exists>n. node_at (pnames (name d)) (navTree (ds1 @ d # ds2)) = Some n
    \<and> iname n = name d \<and> idata n = data d"
proof -
  from can d have cd: "canonical (name d)" by simp
  have "\<forall>e\<in>set ds2. \<not> excluded e \<longrightarrow> pnames (name e) \<noteq> pnames (name d)"
  proof (intro ballI impI)
    fix e assume e: "e \<in> set ds2" "\<not> excluded e"
    with can have "canonical (name e)" by simp
    moreover from later e have "name e \<noteq> name d" by simp
    ultimately show "pnames (name e) \<noteq> pnames (name d)"
      using cd pnames_inj by blast
  qed
  from navTree_target [OF d this, of ds1] last_pnames [OF cd] show ?thesis by auto
qed

text \<open>
  C1. Every document that is not excluded has a node in the tree with the document's
  path and the document's data, and a document at \<^verbatim>\<open>/\<close> has its data at the
  root: this holds for the last document that is not excluded at each canonical path.
  An earlier document at the same path has its data overwritten.
\<close>

theorem nav_has_document:
  assumes "\<forall>e\<in>set (ds1 @ d # ds2). \<not> excluded e \<longrightarrow> canonical (name e)"
    and "\<not> excluded d"
    and "\<forall>e\<in>set ds2. \<not> excluded e \<longrightarrow> name e \<noteq> name d"
  shows "has_node (navTree (ds1 @ d # ds2)) (name d) (data d)
    \<and> (name d = ''/'' \<longrightarrow> idata (navTree (ds1 @ d # ds2)) = data d)"
proof -
  from navTree_canonical_target [OF assms]
  obtain n where n: "node_at (pnames (name d)) (navTree (ds1 @ d # ds2)) = Some n"
    "iname n = name d" "idata n = data d"
    by blast
  from node_at_nodes [OF n(1)] n(2,3)
  have "has_node (navTree (ds1 @ d # ds2)) (name d) (data d)"
    by (auto simp: has_node_def list_ex_iff)
  moreover have "idata (navTree (ds1 @ d # ds2)) = data d" if "name d = ''/''"
    using n that by simp
  ultimately show ?thesis by blast
qed

theorem nav_has_document_witness:
  "list_all (\<lambda>e. excluded e \<or> canonical (name e))
     [page ''/'' ''Home'' False, page ''/x/'' ''first'' False, page ''/x/'' ''second'' False,
      page ''/x/'' ''third'' True, page ''/y/'' ''Y'' False]
   \<and> \<not> excluded (page ''/x/'' ''second'' False)
   \<and> list_all (\<lambda>e. excluded e \<or> name e \<noteq> ''/x/'')
        [page ''/x/'' ''third'' True, page ''/y/'' ''Y'' False]
   \<and> has_node
        (navTree [page ''/'' ''Home'' False, page ''/x/'' ''first'' False,
           page ''/x/'' ''second'' False, page ''/x/'' ''third'' True, page ''/y/'' ''Y'' False])
        ''/x/'' (data (page ''/x/'' ''second'' False))
   \<and> \<not> excluded (page ''/'' ''Home'' False)
   \<and> idata (navTree [page ''/'' ''Home'' False, page ''/x/'' ''first'' False])
       = data (page ''/'' ''Home'' False)"
  using nav_has_document [of "[page ''/'' ''Home'' False, page ''/x/'' ''first'' False]"
      "page ''/x/'' ''second'' False" "[page ''/x/'' ''third'' True, page ''/y/'' ''Y'' False]"]
    nav_has_document [of "[]" "page ''/'' ''Home'' False" "[page ''/x/'' ''first'' False]"]
  by (simp add: excluded_def page_def canonical_def)

theorem nav_has_document_counterexample:
  "\<not> excluded (page ''/x/'' ''first'' False) \<and> \<not> excluded (page ''/x/'' ''second'' False)
   \<and> \<not> has_node (navTree [page ''/x/'' ''first'' False, page ''/x/'' ''second'' False])
         ''/x/'' (data (page ''/x/'' ''first'' False))"
  by (simp add: navTree_def step_ins pnames_def excluded_def page_def has_node_def)

text \<open>
  C4. When documents share a canonical path, the node at that path carries the data of
  the last of them that is not excluded, and no other node of the tree has that path.
  A later excluded document at the path is skipped and leaves the data in place.
\<close>

theorem last_write_wins:
  assumes can: "\<forall>e\<in>set allInfo. \<not> excluded e \<longrightarrow> canonical (name e)"
    and ne: "filter (\<lambda>e. \<not> excluded e \<and> name e = p) allInfo \<noteq> []"
  shows "(\<exists>n. node_at (pnames p) (navTree allInfo) = Some n \<and> iname n = p
      \<and> idata n = data (last (filter (\<lambda>e. \<not> excluded e \<and> name e = p) allInfo)))
    \<and> (\<forall>dat. has_node (navTree allInfo) p dat
          \<longleftrightarrow> dat = data (last (filter (\<lambda>e. \<not> excluded e \<and> name e = p) allInfo)))"
proof -
  let ?P = "\<lambda>e. \<not> excluded e \<and> name e = p"
  from ne have "\<exists>e\<in>set allInfo. ?P e" by (simp add: filter_empty_conv)
  from split_list_last_prop [OF this]
  obtain ds1 d ds2 where sp: "allInfo = ds1 @ d # ds2" "?P d" "\<forall>e\<in>set ds2. \<not> ?P e"
    by blast
  from sp(3) have "filter ?P ds2 = []" by (simp add: filter_empty_conv)
  with sp have l: "last (filter ?P allInfo) = d" by simp
  from sp have later: "\<forall>e\<in>set ds2. \<not> excluded e \<longrightarrow> name e \<noteq> name d" by auto
  from navTree_canonical_target [OF can [unfolded sp(1)] _ later] sp(2)
  obtain n where n: "node_at (pnames p) (navTree allInfo) = Some n" "iname n = p"
    "idata n = data d"
    unfolding sp(1) by auto
  from node_at_nodes [OF n(1)] have mem: "n \<in> set (nodes (navTree allInfo))" .
  have inj: "inj_on iname (set (nodes (navTree allInfo)))"
    using navTree_distinct [of allInfo] by (simp add: node_names_def distinct_map)
  have "has_node (navTree allInfo) p dat \<longleftrightarrow> dat = data d" for dat
  proof
    assume "has_node (navTree allInfo) p dat"
    then obtain m where m: "m \<in> set (nodes (navTree allInfo))" "iname m = p" "idata m = dat"
      by (auto simp: has_node_def list_ex_iff)
    from inj m(1,2) mem n(2) have "m = n" by (auto dest: inj_onD)
    with m(3) n(3) show "dat = data d" by simp
  next
    assume "dat = data d"
    with mem n(2,3) show "has_node (navTree allInfo) p dat"
      by (auto simp: has_node_def list_ex_iff)
  qed
  with n show ?thesis unfolding l by blast
qed

theorem last_write_wins_witness:
  "list_all (\<lambda>e. excluded e \<or> canonical (name e))
     [page ''/x/'' ''first'' False, page ''/x/'' ''second'' False, page ''/x/'' ''third'' True]
   \<and> filter (\<lambda>e. \<not> excluded e \<and> name e = ''/x/'')
       [page ''/x/'' ''first'' False, page ''/x/'' ''second'' False, page ''/x/'' ''third'' True]
       = [page ''/x/'' ''first'' False, page ''/x/'' ''second'' False]
   \<and> node_at (pnames ''/x/'')
       (navTree [page ''/x/'' ''first'' False, page ''/x/'' ''second'' False,
          page ''/x/'' ''third'' True])
       = Some (Item ''/x/'' (data (page ''/x/'' ''second'' False)) [])
   \<and> has_node
       (navTree [page ''/x/'' ''first'' False, page ''/x/'' ''second'' False,
          page ''/x/'' ''third'' True])
       ''/x/'' (data (page ''/x/'' ''second'' False))
   \<and> \<not> has_node
       (navTree [page ''/x/'' ''first'' False, page ''/x/'' ''second'' False,
          page ''/x/'' ''third'' True])
       ''/x/'' (data (page ''/x/'' ''first'' False))"
  using last_write_wins [of "[page ''/x/'' ''first'' False, page ''/x/'' ''second'' False,
      page ''/x/'' ''third'' True]" "''/x/''"]
  by (simp add: navTree_def step_ins pnames_def excluded_def page_def canonical_def has_node_def)

theorem last_write_wins_counterexample:
  "map_option idata (node_at (pnames ''/x/'')
     (navTree [page ''/x/'' ''first'' False, page ''/x/'' ''second'' True]))
   = Some (data (page ''/x/'' ''first'' False))
   \<and> data (page ''/x/'' ''first'' False) \<noteq> data (page ''/x/'' ''second'' True)"
  by (simp add: navTree_def step_ins pnames_def excluded_def page_def)

section \<open>Skipped documents and the shape of the tree\<close>

lemma step_excluded: "excluded d \<Longrightarrow> step d t = t"
  by (simp add: step_def)

lemma build_filter: "build ds t = build (filter (\<lambda>d. \<not> excluded d) ds) t"
  by (induction ds arbitrary: t) (auto simp: step_excluded)

lemma names_step:
  "set (node_names (step d t))
     \<subseteq> set (node_names t) \<union> (if excluded d then {} else set (pnames (name d)))"
  using names_ins [of "pnames (name d)" "data d" t] by (simp add: step_ins)

lemma names_build:
  "p \<in> set (node_names (build ds t)) \<Longrightarrow>
   p \<in> set (node_names t) \<or> (\<exists>d\<in>set ds. \<not> excluded d \<and> p \<in> set (pnames (name d)))"
proof (induction ds arbitrary: t)
  case Nil
  then show ?case by simp
next
  case (Cons d ds)
  from Cons.IH [of "step d t"] Cons.prems
  consider "p \<in> set (node_names (step d t))"
    | "\<exists>e\<in>set ds. \<not> excluded e \<and> p \<in> set (pnames (name e))"
    by auto
  then show ?case
  proof cases
    case 1
    with names_step [of d t] show ?thesis by (auto split: if_splits)
  next
    case 2
    then show ?thesis by auto
  qed
qed

lemma deeper_inv_ins:
  "deeper_inv t \<Longrightarrow> chained (iname t) qs \<Longrightarrow> deeper_inv (ins qs dat t)"
proof (induction qs arbitrary: t)
  case Nil
  then show ?case by (cases t) simp
next
  case (Cons q qs)
  obtain n x cs where t: "t = Item n x cs" by (cases t)
  from Cons.prems t have q: "one_deeper n q" "chained q qs" by auto
  show ?case
  proof (cases "find_index (\<lambda>c. iname c = q) cs")
    case None
    have "deeper_inv (ins qs dat (Item q empty_data []))"
      by (rule Cons.IH) (simp_all add: q)
    with Cons.prems(1) q(1) show ?thesis by (auto simp: t None)
  next
    case (Some k)
    from find_index_Some [OF Some] have k: "k < length cs" "iname (cs ! k) = q" by auto
    then have "cs ! k \<in> set cs" by simp
    with Cons.prems(1) t have "deeper_inv (cs ! k)" by auto
    then have "deeper_inv (ins qs dat (cs ! k))"
      by (rule Cons.IH) (simp add: k q)
    have "one_deeper n (iname c) \<and> deeper_inv c"
      if "c \<in> set (cs[k := ins qs dat (cs ! k)])" for c
    proof -
      from that set_update_subset_insert [of cs k "ins qs dat (cs ! k)"]
      have "c = ins qs dat (cs ! k) \<or> c \<in> set cs" by auto
      then show ?thesis
      proof
        assume "c = ins qs dat (cs ! k)"
        with \<open>deeper_inv (ins qs dat (cs ! k))\<close> q(1) k(2) show ?thesis by simp
      next
        assume "c \<in> set cs"
        with Cons.prems(1) t show ?thesis by simp
      qed
    qed
    then show ?thesis by (simp add: t Some)
  qed
qed

lemma path_inv_build:
  "path_inv t \<Longrightarrow> \<forall>d\<in>set ds. \<not> excluded d \<longrightarrow> prefix ''/'' (name d) \<Longrightarrow> path_inv (build ds t)"
proof (induction ds arbitrary: t)
  case Nil
  then show ?case by simp
next
  case (Cons d ds)
  have "path_inv (step d t)"
  proof (cases "excluded d")
    case True
    with Cons.prems show ?thesis by (simp add: step_excluded)
  next
    case False
    with Cons.prems have "chained ''/'' (pnames (name d))" by (simp add: pnames_rooted)
    with Cons.prems(1) False show ?thesis
      by (simp add: step_ins path_inv_def deeper_inv_ins)
  qed
  with Cons show ?case by simp
qed

text \<open>
  C6. After every round of the outer loop the root's path is \<^verbatim>\<open>/\<close> and the path of
  every other node is its parent's path, then one segment without a slash, then a
  slash. The names of the documents start with a slash, as the loader makes them.
\<close>

theorem path_invariant:
  assumes "\<forall>d\<in>set allInfo. \<not> excluded d \<longrightarrow> prefix ''/'' (name d)"
  shows "path_inv (navTree (take k allInfo))"
proof -
  have "path_inv (Item ''/'' empty_data [])" by (simp add: path_inv_def)
  moreover from assms have "\<forall>d\<in>set (take k allInfo). \<not> excluded d \<longrightarrow> prefix ''/'' (name d)"
    by (meson in_set_takeD)
  ultimately show ?thesis unfolding navTree_def by (rule path_inv_build)
qed

theorem path_invariant_witness:
  "list_all (\<lambda>d. excluded d \<or> prefix ''/'' (name d))
     [page ''/'' ''Home'' False, page ''/a/b/'' ''B'' False, page ''x'' ''X'' True, page ''/a/c/'' ''C'' False]
   \<and> path_inv (navTree (take 2
       [page ''/'' ''Home'' False, page ''/a/b/'' ''B'' False, page ''x'' ''X'' True, page ''/a/c/'' ''C'' False]))
   \<and> path_inv (navTree
       [page ''/'' ''Home'' False, page ''/a/b/'' ''B'' False, page ''x'' ''X'' True, page ''/a/c/'' ''C'' False])"
  using path_invariant [of "[page ''/'' ''Home'' False, page ''/a/b/'' ''B'' False, page ''x'' ''X'' True, page ''/a/c/'' ''C'' False]" 2]
    path_invariant [of "[page ''/'' ''Home'' False, page ''/a/b/'' ''B'' False, page ''x'' ''X'' True, page ''/a/c/'' ''C'' False]" 4]
  by (simp add: excluded_def page_def navTree_def step_ins pnames_def path_inv_def one_deeper_def)


section \<open>Attaching data to a node that is there\<close>

lemma concat_map_nth:
  "k < length cs \<Longrightarrow>
   concat (map f cs) = concat (map f (take k cs)) @ f (cs ! k) @ concat (map f (drop (Suc k) cs))"
proof -
  assume "k < length cs"
  then have "cs = take k cs @ cs ! k # drop (Suc k) cs" by (rule id_take_nth_drop)
  then have "concat (map f cs) = concat (map f (take k cs @ cs ! k # drop (Suc k) cs))" by simp
  then show ?thesis by simp
qed

lemma concat_map_update:
  "k < length cs \<Longrightarrow>
   concat (map f (cs[k := c])) = concat (map f (take k cs)) @ f c @ concat (map f (drop (Suc k) cs))"
  by (simp add: upd_conv_take_nth_drop)

lemma shape_ins_existing: "node_at qs t = Some m \<Longrightarrow> shape (ins qs dat t) = shape t"
proof (induction qs arbitrary: t)
  case Nil
  show ?case by (cases t) simp
next
  case (Cons q qs)
  obtain n x cs where t: "t = Item n x cs" by (cases t)
  from Cons.prems t obtain k where k: "find_index (\<lambda>c. iname c = q) cs = Some k"
    and at: "node_at qs (cs ! k) = Some m"
    by (auto split: option.splits)
  from find_index_Some [OF k] have kl: "k < length cs" by simp
  have "map shape (cs[k := ins qs dat (cs ! k)]) = (map shape cs)[k := shape (cs ! k)]"
    by (simp add: map_update Cons.IH [OF at])
  also have "\<dots> = map shape cs"
    using kl by (simp add: list_update_same_conv)
  finally show ?case by (simp add: t k)
qed

lemma datas_ins_existing:
  "node_at qs t = Some m \<Longrightarrow>
   \<exists>i<length (nodes t). nodes t ! i = m
     \<and> map idata (nodes (ins qs dat t)) = (map idata (nodes t))[i := dat]"
proof (induction qs arbitrary: t)
  case Nil
  then have "t = m" by simp
  then show ?case by (cases m) (auto intro!: exI [of _ 0])
next
  case (Cons q qs)
  obtain n x cs where t: "t = Item n x cs" by (cases t)
  from Cons.prems t obtain k where k: "find_index (\<lambda>c. iname c = q) cs = Some k"
    and at: "node_at qs (cs ! k) = Some m"
    by (auto split: option.splits)
  from find_index_Some [OF k] have kl: "k < length cs" by simp
  let ?c = "ins qs dat (cs ! k)"
  let ?A = "concat (map nodes (take k cs))"
  let ?B = "concat (map nodes (drop (Suc k) cs))"
  from Cons.IH [OF at] obtain i where i: "i < length (nodes (cs ! k))" "nodes (cs ! k) ! i = m"
    "map idata (nodes ?c) = (map idata (nodes (cs ! k)))[i := dat]"
    by blast
  have old: "nodes t = Item n x cs # ?A @ nodes (cs ! k) @ ?B"
    using concat_map_nth [OF kl, of nodes] by (simp add: t)
  have new: "nodes (ins (q # qs) dat t) = Item n x (cs[k := ?c]) # ?A @ nodes ?c @ ?B"
    using concat_map_update [OF kl, of nodes ?c] by (simp add: t k)
  let ?j = "Suc (length ?A + i)"
  have "?j < length (nodes t)" using i(1) by (simp add: old)
  moreover have "nodes t ! ?j = m" using i(1,2) by (simp add: old nth_append)
  moreover have "map idata (nodes (ins (q # qs) dat t)) = (map idata (nodes t))[?j := dat]"
    using i(1,3) by (simp add: old new list_update_append)
  ultimately show ?case by blast
qed

lemma names_ins_subseq: "subseq (node_names t) (node_names (ins qs dat t))"
proof (induction qs arbitrary: t)
  case Nil
  then show ?case by (cases t) (simp add: node_names_def)
next
  case (Cons q qs)
  obtain n x cs where t: "t = Item n x cs" by (cases t)
  show ?case
  proof (cases "find_index (\<lambda>c. iname c = q) cs")
    case None
    show ?thesis
      by (simp add: t None node_names_def prefix_imp_subseq)
  next
    case (Some k)
    from find_index_Some [OF Some] have kl: "k < length cs" by simp
    let ?c = "ins qs dat (cs ! k)"
    let ?A = "concat (map nodes (take k cs))"
    let ?B = "concat (map nodes (drop (Suc k) cs))"
    have old: "node_names t = n # map iname ?A @ node_names (cs ! k) @ map iname ?B"
      using concat_map_nth [OF kl, of nodes] by (simp add: t node_names_def)
    have new: "node_names (ins (q # qs) dat t) = n # map iname ?A @ node_names ?c @ map iname ?B"
      using concat_map_update [OF kl, of nodes ?c] by (simp add: t Some node_names_def)
    from Cons.IH [of "cs ! k"] show ?thesis
      unfolding old new by (simp add: list_emb_append_mono)
  qed
qed

lemma names_step_subseq: "subseq (node_names t) (node_names (step d t))"
  by (simp add: step_ins names_ins_subseq)

text \<open>
  C10. A round of the outer loop removes no node: the paths of the tree before are a
  subsequence of the paths after. When the walk of a document that is not excluded
  ends at a node that is already in the tree, the round replaces the data of that
  node only: the node keeps its path and its children, the tree keeps its shape, and
  in the list of the data of all nodes only the entry of that node changes.
\<close>

theorem attach_frame:
  "subseq (node_names t) (node_names (step d t))
   \<and> (\<not> excluded d \<and> node_at (pnames (name d)) t = Some m \<longrightarrow>
        node_at (pnames (name d)) (step d t) = Some (Item (iname m) (data d) (children m))
        \<and> shape (step d t) = shape t
        \<and> (\<exists>i<length (nodes t). nodes t ! i = m
             \<and> map idata (nodes (step d t)) = (map idata (nodes t))[i := data d]))"
  using names_step_subseq [of t d] node_at_ins_existing [of "pnames (name d)" t m "data d"]
    shape_ins_existing [of "pnames (name d)" t m "data d"]
    datas_ins_existing [of "pnames (name d)" t m "data d"]
  by (simp add: step_ins)

theorem attach_frame_witness:
  "subseq
     (node_names (navTree [page ''/blog/a/'' ''A'' False, page ''/blog/b/'' ''B'' False]))
     (node_names (step (page ''/blog/'' ''Blog'' False)
        (navTree [page ''/blog/a/'' ''A'' False, page ''/blog/b/'' ''B'' False])))
   \<and> \<not> excluded (page ''/blog/'' ''Blog'' False)
   \<and> node_at (pnames ''/blog/'')
        (navTree [page ''/blog/a/'' ''A'' False, page ''/blog/b/'' ''B'' False])
      = Some (Item ''/blog/'' empty_data
          [Item ''/blog/a/'' (data (page ''/blog/a/'' ''A'' False)) [],
           Item ''/blog/b/'' (data (page ''/blog/b/'' ''B'' False)) []])
   \<and> node_at (pnames ''/blog/'')
        (step (page ''/blog/'' ''Blog'' False)
           (navTree [page ''/blog/a/'' ''A'' False, page ''/blog/b/'' ''B'' False]))
      = Some (Item ''/blog/'' (data (page ''/blog/'' ''Blog'' False))
          [Item ''/blog/a/'' (data (page ''/blog/a/'' ''A'' False)) [],
           Item ''/blog/b/'' (data (page ''/blog/b/'' ''B'' False)) []])
   \<and> shape (step (page ''/blog/'' ''Blog'' False)
          (navTree [page ''/blog/a/'' ''A'' False, page ''/blog/b/'' ''B'' False]))
      = shape (navTree [page ''/blog/a/'' ''A'' False, page ''/blog/b/'' ''B'' False])
   \<and> map idata (nodes (step (page ''/blog/'' ''Blog'' False)
          (navTree [page ''/blog/a/'' ''A'' False, page ''/blog/b/'' ''B'' False])))
      = (map idata (nodes (navTree [page ''/blog/a/'' ''A'' False, page ''/blog/b/'' ''B'' False])))
          [1 := data (page ''/blog/'' ''Blog'' False)]"
  using attach_frame [of "navTree [page ''/blog/a/'' ''A'' False, page ''/blog/b/'' ''B'' False]"
      "page ''/blog/'' ''Blog'' False"
      "Item ''/blog/'' empty_data
          [Item ''/blog/a/'' (data (page ''/blog/a/'' ''A'' False)) [],
           Item ''/blog/b/'' (data (page ''/blog/b/'' ''B'' False)) []]"]
  by (simp add: excluded_def page_def navTree_def step_ins pnames_def node_names_def)


section \<open>The order of siblings\<close>

lemma ranked_mono:
  "ranked r S n \<Longrightarrow> \<forall>p\<in>S. r' p = r p \<Longrightarrow> S \<subseteq> S' \<Longrightarrow> ranked r' S' n"
proof -
  assume rk: "ranked r S n" and eq: "\<forall>p\<in>S. r' p = r p" and sub: "S \<subseteq> S'"
  let ?xs = "map iname (children n)"
  from rk have s: "sorted_wrt (\<lambda>a b. r a < r b) ?xs" and inS: "set ?xs \<subseteq> S"
    by (auto simp: ranked_def)
  have "sorted_wrt (\<lambda>a b. r' a < r' b) ?xs"
  proof (rule sorted_wrt_mono_rel [OF _ s])
    fix a b assume "a \<in> set ?xs" "b \<in> set ?xs" "r a < r b"
    with inS eq show "r' a < r' b" by (metis subsetD)
  qed
  with inS sub show ?thesis by (auto simp: ranked_def)
qed

lemma ranked_children_cong: "children n = children n' \<Longrightarrow> ranked r S n = ranked r S n'"
  by (simp add: ranked_def)

lemma node_at_take:
  "node_at qs t = Some n \<Longrightarrow> \<exists>m. node_at (take k qs) t = Some m"
proof (induction qs arbitrary: t k)
  case Nil
  then show ?case by simp
next
  case (Cons q qs)
  then show ?case by (cases k) (auto split: option.splits)
qed

lemma node_at_ins_mono:
  "node_at ps t = Some n \<Longrightarrow> \<exists>n'. node_at ps (ins qs dat t) = Some n'"
  using node_at_ins_other [of ps qs t n dat] node_at_ins_existing [of qs t n dat]
  by (cases "ps = qs") auto

lemma ranked_ins:
  assumes "\<forall>n\<in>set (nodes t). ranked r S n"
    and "\<forall>p\<in>S. r' p = r p \<and> r p < N"
    and "\<forall>p\<in>set qs. p \<notin> S \<longrightarrow> r' p = N"
    and "\<forall>k<length qs. node_at (take (Suc k) qs) t = None \<longrightarrow> qs ! k \<notin> S"
    and "S \<union> set qs \<subseteq> S'"
  shows "\<forall>n\<in>set (nodes (ins qs dat t)). ranked r' S' n"
  using assms
proof (induction qs arbitrary: t)
  case Nil
  obtain n x cs where t: "t = Item n x cs" by (cases t)
  have mono: "ranked r' S' m" if "ranked r S m" for m
    using that Nil.prems(2,5) by (auto intro: ranked_mono)
  have "ranked r S (Item n dat cs)"
    using Nil.prems(1) ranked_children_cong [of "Item n dat cs" "Item n x cs"] by (simp add: t)
  with Nil.prems(1) mono show ?case by (auto simp: t)
next
  case (Cons q qs)
  obtain n x cs where t: "t = Item n x cs" by (cases t)
  have mono: "ranked r' S' m" if "ranked r S m" for m
    using that Cons.prems(2,5) by (auto intro: ranked_mono)
  have old: "ranked r' S' m" if "m \<in> set (concat (map nodes cs))" for m
    using that Cons.prems(1) mono by (auto simp: t)
  have root: "ranked r S (Item n x cs)" using Cons.prems(1) by (simp add: t)
  have S': "S \<union> set qs \<subseteq> S'" "q \<in> S'" using Cons.prems(5) by auto
  have r3: "\<forall>p\<in>set qs. p \<notin> S \<longrightarrow> r' p = N" using Cons.prems(3) by simp
  show ?case
  proof (cases "find_index (\<lambda>c. iname c = q) cs")
    case None
    let ?c = "ins qs dat (Item q empty_data [])"
    have "node_at (take (Suc 0) (q # qs)) t = None" by (simp add: t None)
    with Cons.prems(4) have qS: "q \<notin> S" by fastforce
    with Cons.prems(3) have rq: "r' q = N" by simp
    have U: "\<forall>k<length qs. node_at (take (Suc k) qs) (Item q empty_data []) = None \<longrightarrow> qs ! k \<notin> S"
    proof (intro allI impI)
      fix k assume k: "k < length qs"
      have "node_at (take (Suc (Suc k)) (q # qs)) t = None" by (simp add: t None)
      with Cons.prems(4) k have "(q # qs) ! Suc k \<notin> S" by fastforce
      then show "qs ! k \<notin> S" by simp
    qed
    have leaf: "\<forall>m\<in>set (nodes (Item q empty_data [])). ranked r S m"
      by (simp add: ranked_def)
    have new: "\<forall>m\<in>set (nodes ?c). ranked r' S' m"
      by (rule Cons.IH [OF leaf Cons.prems(2) r3 U S'(1)])
    have "ranked r' S' (Item n x (cs @ [?c]))"
    proof -
      from mono [OF root] have a: "sorted_wrt (\<lambda>a b. r' a < r' b) (map iname cs)"
        and b: "iname ` set cs \<subseteq> S'" by (auto simp: ranked_def)
      from root have "iname ` set cs \<subseteq> S" by (auto simp: ranked_def)
      with Cons.prems(2) rq have "\<forall>c\<in>set cs. r' (iname c) < r' q" by auto
      with a b S'(2) show ?thesis
        by (auto simp: ranked_def sorted_wrt_append)
    qed
    with old new show ?thesis by (auto simp: t None)
  next
    case (Some j)
    from find_index_Some [OF Some] have j: "j < length cs" "iname (cs ! j) = q" by auto
    let ?c = "ins qs dat (cs ! j)"
    have U: "\<forall>k<length qs. node_at (take (Suc k) qs) (cs ! j) = None \<longrightarrow> qs ! k \<notin> S"
    proof (intro allI impI)
      fix k assume k: "k < length qs" and no: "node_at (take (Suc k) qs) (cs ! j) = None"
      then have "node_at (take (Suc (Suc k)) (q # qs)) t = None" by (simp add: t Some)
      with Cons.prems(4) k have "(q # qs) ! Suc k \<notin> S" by fastforce
      then show "qs ! k \<notin> S" by simp
    qed
    have sub: "\<forall>m\<in>set (nodes (cs ! j)). ranked r S m"
      using Cons.prems(1) j(1) by (auto simp: t)
    have new: "\<forall>m\<in>set (nodes ?c). ranked r' S' m"
      by (rule Cons.IH [OF sub Cons.prems(2) r3 U S'(1)])
    have "map iname (cs[j := ?c]) = map iname cs"
      using j by (simp add: map_update list_update_same_conv)
    then have "ranked r' S' (Item n x (cs[j := ?c])) = ranked r' S' (Item n x cs)"
      by (simp add: ranked_def del: set_map flip: set_map)
    with mono [OF root] have top: "ranked r' S' (Item n x (cs[j := ?c]))" by simp
    have "ranked r' S' m" if "m \<in> set (concat (map nodes (cs[j := ?c])))" for m
      using that set_nodes_update [OF j(1), of ?c] old new by blast
    with top show ?thesis by (auto simp: t Some)
  qed
qed

lemma find_index_cong_set:
  "(\<And>x. x \<in> set xs \<Longrightarrow> p x = q x) \<Longrightarrow> find_index p xs = find_index q xs"
  by (induction xs) auto

lemma seen_find:
  "p \<in> seen ds \<longleftrightarrow> find_index (\<lambda>d. \<not> excluded d \<and> p \<in> set (pnames (name d))) ds \<noteq> None"
  by (auto simp: seen_def find_index_None)

lemma rank_seen: "p \<in> seen ds \<Longrightarrow> rank ds p < length ds"
  by (auto simp: seen_find rank_def dest: find_index_Some)

lemma rank_snoc_seen: "p \<in> seen ds \<Longrightarrow> rank (ds @ [d]) p = rank ds p"
  by (auto simp: seen_find rank_def find_index_append)

lemma rank_snoc_new:
  "p \<notin> seen ds \<Longrightarrow> \<not> excluded d \<Longrightarrow> p \<in> set (pnames (name d)) \<Longrightarrow> rank (ds @ [d]) p = length ds"
  by (simp add: seen_find rank_def find_index_append)

lemma seen_snoc:
  "seen (ds @ [d]) = seen ds \<union> (if excluded d then {} else set (pnames (name d)))"
  by (auto simp: seen_def)

lemma build_ranked:
  "(\<forall>n\<in>set (nodes (build ds (Item ''/'' empty_data []))). ranked (rank ds) (seen ds) n)
   \<and> (\<forall>p\<in>seen ds. node_at (pnames p) (build ds (Item ''/'' empty_data [])) \<noteq> None)"
proof (induction ds rule: rev_induct)
  case Nil
  show ?case by (simp add: ranked_def seen_def)
next
  case (snoc d ds)
  let ?t = "build ds (Item ''/'' empty_data [])"
  from snoc have K: "\<forall>n\<in>set (nodes ?t). ranked (rank ds) (seen ds) n"
    and M: "\<forall>p\<in>seen ds. node_at (pnames p) ?t \<noteq> None" by auto
  have b: "build (ds @ [d]) (Item ''/'' empty_data []) = step d ?t"
    by (simp add: build_append)
  show ?case
  proof (cases "excluded d")
    case True
    then have s: "seen (ds @ [d]) = seen ds" by (simp add: seen_snoc)
    have "ranked (rank (ds @ [d])) (seen ds) n" if "n \<in> set (nodes ?t)" for n
      using that K by (auto intro: ranked_mono simp: rank_snoc_seen)
    with M True show ?thesis by (simp add: b s step_excluded)
  next
    case False
    let ?qs = "pnames (name d)"
    have s: "seen (ds @ [d]) = seen ds \<union> set ?qs" using False by (simp add: seen_snoc)
    have t': "step d ?t = ins ?qs (data d) ?t" using False by (simp add: step_ins)
    have U: "\<forall>k<length ?qs. node_at (take (Suc k) ?qs) ?t = None \<longrightarrow> ?qs ! k \<notin> seen ds"
    proof (intro allI impI)
      fix k assume k: "k < length ?qs" and no: "node_at (take (Suc k) ?qs) ?t = None"
      show "?qs ! k \<notin> seen ds"
      proof
        assume "?qs ! k \<in> seen ds"
        with M have "node_at (pnames (?qs ! k)) ?t \<noteq> None" by blast
        with no pnames_chain [OF k] show False by simp
      qed
    qed
    have K': "\<forall>n\<in>set (nodes (ins ?qs (data d) ?t)). ranked (rank (ds @ [d])) (seen (ds @ [d])) n"
    proof (rule ranked_ins [OF K _ _ U, where N = "length ds"])
      show "\<forall>p\<in>seen ds. rank (ds @ [d]) p = rank ds p \<and> rank ds p < length ds"
        by (simp add: rank_snoc_seen rank_seen)
      show "\<forall>p\<in>set ?qs. p \<notin> seen ds \<longrightarrow> rank (ds @ [d]) p = length ds"
        using False by (simp add: rank_snoc_new)
      show "seen ds \<union> set ?qs \<subseteq> seen (ds @ [d])" by (simp add: s)
    qed
    have M': "node_at (pnames p) (ins ?qs (data d) ?t) \<noteq> None" if "p \<in> seen (ds @ [d])" for p
    proof (cases "p \<in> seen ds")
      case True
      with M obtain n where "node_at (pnames p) ?t = Some n" by blast
      from node_at_ins_mono [OF this] show ?thesis by auto
    next
      case False
      with that s obtain k where k: "k < length ?qs" "p = ?qs ! k"
        by (auto simp: in_set_conv_nth)
      from node_at_ins_target [of ?qs "data d" ?t] obtain n
        where "node_at ?qs (ins ?qs (data d) ?t) = Some n" by blast
      from node_at_take [OF this, of "Suc k"] pnames_chain [OF k(1)] k(2)
      show ?thesis by auto
    qed
    from K' M' show ?thesis by (simp add: b t')
  qed
qed

lemma first_seen_rank:
  assumes rooted: "\<forall>d\<in>set ds. \<not> excluded d \<longrightarrow> prefix ''/'' (name d)"
    and p: "p \<in> seen ds"
  shows "first_seen ds p = Some (rank ds p)"
proof -
  from p obtain d' where d': "d' \<in> set ds" "\<not> excluded d'" "p \<in> set (pnames (name d'))"
    by (auto simp: seen_def)
  with rooted have r': "prefix ''/'' (name d')" by simp
  have "first_seen ds p = find_index (\<lambda>d. \<not> excluded d \<and> p \<in> set (pnames (name d))) ds"
    unfolding first_seen_def
  proof (rule find_index_cong_set)
    fix d assume d: "d \<in> set ds"
    show "(\<not> excluded d \<and> prefix p (name d)) = (\<not> excluded d \<and> p \<in> set (pnames (name d)))"
    proof (cases "excluded d")
      case True
      then show ?thesis by simp
    next
      case False
      with rooted d have "prefix ''/'' (name d)" by simp
      from prefix_pnames [OF this r' d'(3)] pnames_prefix [of p "name d"] False
      show ?thesis by auto
    qed
  qed
  moreover from p obtain i where
    "find_index (\<lambda>d. \<not> excluded d \<and> p \<in> set (pnames (name d))) ds = Some i"
    by (auto simp: seen_find)
  ultimately show ?thesis by (simp add: rank_def)
qed

text \<open>
  C5. At every node of the tree the children are in the order in which their paths
  are first seen in the input, as the path of a document that is not excluded or as a
  prefix of one, and every child's path is seen; the order is never another. An
  excluded document does not count: a path seen first in an excluded document takes
  its place from the first document after it that is not excluded.
\<close>

theorem siblings_in_first_seen_order:
  assumes "\<forall>d\<in>set allInfo. \<not> excluded d \<longrightarrow> prefix ''/'' (name d)"
  shows "sibling_order allInfo (navTree allInfo)"
proof -
  have "sorted_wrt (seen_before allInfo) (map iname (children n))
      \<and> list_all (\<lambda>c. first_seen allInfo (iname c) \<noteq> None) (children n)"
    if n: "n \<in> set (nodes (navTree allInfo))" for n
  proof -
    let ?xs = "map iname (children n)"
    from build_ranked [of allInfo] n have "ranked (rank allInfo) (seen allInfo) n"
      by (simp add: navTree_def)
    then have s: "sorted_wrt (\<lambda>a b. rank allInfo a < rank allInfo b) ?xs"
      and inS: "set ?xs \<subseteq> seen allInfo"
      by (auto simp: ranked_def)
    have "sorted_wrt (seen_before allInfo) ?xs"
    proof (rule sorted_wrt_mono_rel [OF _ s])
      fix a b assume "a \<in> set ?xs" "b \<in> set ?xs" and lt: "rank allInfo a < rank allInfo b"
      with inS have "a \<in> seen allInfo" "b \<in> seen allInfo" by auto
      with lt show "seen_before allInfo a b"
        by (simp add: seen_before_def first_seen_rank [OF assms])
    qed
    moreover have "list_all (\<lambda>c. first_seen allInfo (iname c) \<noteq> None) (children n)"
      using inS by (auto simp: list_all_iff first_seen_rank [OF assms])
    ultimately show ?thesis by simp
  qed
  then show ?thesis by (simp add: sibling_order_def list_all_iff)
qed

theorem siblings_in_first_seen_order_witness:
  "list_all (\<lambda>d. excluded d \<or> prefix ''/'' (name d))
     [page ''/b/'' ''B'' True, page ''/a/'' ''A'' False, page ''/b/x/'' ''X'' False,
      page ''/a/y/'' ''Y'' False, page ''/b/'' ''B2'' False]
   \<and> sibling_order
       [page ''/b/'' ''B'' True, page ''/a/'' ''A'' False, page ''/b/x/'' ''X'' False,
        page ''/a/y/'' ''Y'' False, page ''/b/'' ''B2'' False]
       (navTree [page ''/b/'' ''B'' True, page ''/a/'' ''A'' False, page ''/b/x/'' ''X'' False,
          page ''/a/y/'' ''Y'' False, page ''/b/'' ''B2'' False])
   \<and> map iname (children (navTree [page ''/b/'' ''B'' True, page ''/a/'' ''A'' False,
        page ''/b/x/'' ''X'' False, page ''/a/y/'' ''Y'' False, page ''/b/'' ''B2'' False]))
      = [''/a/'', ''/b/'']"
  using siblings_in_first_seen_order [of "[page ''/b/'' ''B'' True, page ''/a/'' ''A'' False,
      page ''/b/x/'' ''X'' False, page ''/a/y/'' ''Y'' False, page ''/b/'' ''B2'' False]"]
  by (simp add: excluded_def page_def navTree_def step_ins pnames_def)

theorem siblings_in_first_seen_order_counterexample:
  "map iname (children (navTree
      [page ''/b/x/'' ''X'' True, page ''/a/'' ''A'' False, page ''/b/y/'' ''Y'' False]))
     = [''/a/'', ''/b/'']
   \<and> first_occurrence
       [page ''/b/x/'' ''X'' True, page ''/a/'' ''A'' False, page ''/b/y/'' ''Y'' False] ''/b/''
     = Some 0
   \<and> first_occurrence
       [page ''/b/x/'' ''X'' True, page ''/a/'' ''A'' False, page ''/b/y/'' ''Y'' False] ''/a/''
     = Some 1"
  by (simp add: excluded_def page_def navTree_def step_ins pnames_def first_occurrence_def)


section \<open>Which paths have a node\<close>

lemma node_at_iname: "node_at qs t = Some n \<Longrightarrow> iname n = last (iname t # qs)"
proof (induction qs arbitrary: t)
  case Nil
  then show ?case by simp
next
  case (Cons q qs)
  from Cons.prems obtain k where k: "find_index (\<lambda>c. iname c = q) (children t) = Some k"
    and at: "node_at qs (children t ! k) = Some n"
    by (auto split: option.splits)
  from find_index_Some [OF k] have "iname (children t ! k) = q" by simp
  with Cons.IH [OF at] show ?case by simp
qed

lemma last_pnames_self:
  assumes "p \<in> set (pnames nm)"
  shows "pnames p \<noteq> [] \<and> last (pnames p) = p"
proof -
  from assms obtain k where k: "k < length (pnames nm)" "p = pnames nm ! k"
    by (auto simp: in_set_conv_nth)
  from pnames_chain [OF k(1)] k(2) have "pnames p = take k (pnames nm) @ [p]"
    using k(1) by (simp add: take_Suc_conv_app_nth)
  then show ?thesis by simp
qed

lemma seen_has_node: "p \<in> seen allInfo \<Longrightarrow> p \<in> set (node_names (navTree allInfo))"
proof -
  assume p: "p \<in> seen allInfo"
  with build_ranked [of allInfo] obtain n where n: "node_at (pnames p) (navTree allInfo) = Some n"
    by (auto simp: navTree_def)
  from p obtain nm where "p \<in> set (pnames nm)" by (auto simp: seen_def)
  from last_pnames_self [OF this] node_at_iname [OF n] have "iname n = p" by simp
  with node_at_nodes [OF n] show ?thesis by (auto simp: node_names_def)
qed

lemma root_has_node: "''/'' \<in> set (node_names (navTree allInfo))"
  using nodes_self [of "navTree allInfo"] by (force simp: node_names_def navTree_def)

text \<open>
  C2. The tree has a node with a path exactly when the path is \<^verbatim>\<open>/\<close> or one of the
  prefix paths of a document that is not excluded: the paths the walk of that document
  passes, which for a canonical path are the path itself and its prefixes that end
  with a slash, other than \<^verbatim>\<open>/\<close>. So a path other than \<^verbatim>\<open>/\<close> that is the path, or
  a prefix of the path, of excluded documents only names no node, and the tree is the
  one built from the documents that are not excluded: an excluded document creates no
  node. The root is there for every input, and the path of an excluded document names
  a node when a document that is not excluded lies at or under that path.
\<close>

theorem excluded_invisible:
  "navTree allInfo = navTree (filter (\<lambda>d. \<not> excluded d) allInfo)
   \<and> (p \<in> set (node_names (navTree allInfo))
        \<longleftrightarrow> p = ''/'' \<or> (\<exists>d\<in>set allInfo. \<not> excluded d \<and> p \<in> set (pnames (name d))))
   \<and> (p \<noteq> ''/'' \<and> (\<forall>d\<in>set allInfo. prefix p (name d) \<longrightarrow> excluded d)
        \<longrightarrow> p \<notin> set (node_names (navTree allInfo)))"
proof -
  have eq: "navTree allInfo = navTree (filter (\<lambda>d. \<not> excluded d) allInfo)"
    unfolding navTree_def by (rule build_filter)
  have iff: "p \<in> set (node_names (navTree allInfo))
      \<longleftrightarrow> p = ''/'' \<or> (\<exists>d\<in>set allInfo. \<not> excluded d \<and> p \<in> set (pnames (name d)))"
  proof
    assume "p \<in> set (node_names (navTree allInfo))"
    from names_build [OF this [unfolded navTree_def]]
    show "p = ''/'' \<or> (\<exists>d\<in>set allInfo. \<not> excluded d \<and> p \<in> set (pnames (name d)))"
      by (auto simp: node_names_def)
  next
    assume "p = ''/'' \<or> (\<exists>d\<in>set allInfo. \<not> excluded d \<and> p \<in> set (pnames (name d)))"
    then show "p \<in> set (node_names (navTree allInfo))"
    proof
      assume "p = ''/''"
      then show ?thesis by (simp add: root_has_node)
    next
      assume "\<exists>d\<in>set allInfo. \<not> excluded d \<and> p \<in> set (pnames (name d))"
      then have "p \<in> seen allInfo" by (auto simp: seen_def)
      then show ?thesis by (rule seen_has_node)
    qed
  qed
  have none: "p \<notin> set (node_names (navTree allInfo))"
    if "p \<noteq> ''/''" "\<forall>d\<in>set allInfo. prefix p (name d) \<longrightarrow> excluded d"
  proof
    assume "p \<in> set (node_names (navTree allInfo))"
    with iff that(1) obtain d where d: "d \<in> set allInfo" "\<not> excluded d" "p \<in> set (pnames (name d))"
      by auto
    from pnames_prefix [OF d(3)] that(2) d(1,2) show False by blast
  qed
  from eq iff none show ?thesis by blast
qed

theorem excluded_invisible_witness:
  "''/secret/'' \<noteq> ''/''
   \<and> list_all (\<lambda>d. \<not> prefix ''/secret/'' (name d) \<or> excluded d)
       [page ''/a/b/'' ''B'' False, page ''/a/'' ''A'' True, page ''/secret/page/'' ''S'' True]
   \<and> ''/secret/'' \<notin> set (node_names (navTree
        [page ''/a/b/'' ''B'' False, page ''/a/'' ''A'' True, page ''/secret/page/'' ''S'' True]))
   \<and> ''/secret/page/'' \<notin> set (node_names (navTree
        [page ''/a/b/'' ''B'' False, page ''/a/'' ''A'' True, page ''/secret/page/'' ''S'' True]))
   \<and> \<not> excluded (page ''/a/b/'' ''B'' False) \<and> ''/a/'' \<in> set (pnames ''/a/b/'')
   \<and> ''/a/'' \<in> set (node_names (navTree
        [page ''/a/b/'' ''B'' False, page ''/a/'' ''A'' True, page ''/secret/page/'' ''S'' True]))
   \<and> node_names (navTree
        [page ''/a/b/'' ''B'' False, page ''/a/'' ''A'' True, page ''/secret/page/'' ''S'' True])
      = [''/'', ''/a/'', ''/a/b/'']
   \<and> navTree [page ''/a/b/'' ''B'' False, page ''/a/'' ''A'' True, page ''/secret/page/'' ''S'' True]
       = navTree [page ''/a/b/'' ''B'' False]"
  using excluded_invisible [of "[page ''/a/b/'' ''B'' False, page ''/a/'' ''A'' True, page ''/secret/page/'' ''S'' True]" "''/secret/''"]
    excluded_invisible [of "[page ''/a/b/'' ''B'' False, page ''/a/'' ''A'' True, page ''/secret/page/'' ''S'' True]" "''/secret/page/''"]
    excluded_invisible [of "[page ''/a/b/'' ''B'' False, page ''/a/'' ''A'' True, page ''/secret/page/'' ''S'' True]" "''/a/''"]
  by (simp add: excluded_def page_def navTree_def step_ins pnames_def node_names_def)

theorem excluded_invisible_counterexample:
  "excluded (page ''/'' ''Home'' True)
   \<and> ''/'' \<in> set (node_names (navTree [page ''/'' ''Home'' True]))
   \<and> excluded (page ''/a/'' ''A'' True)
   \<and> ''/a/'' \<in> set (node_names (navTree [page ''/a/b/'' ''B'' False, page ''/a/'' ''A'' True]))"
  by (simp add: navTree_def step_ins pnames_def excluded_def page_def node_names_def)

section \<open>The sitemap and the files of the documents\<close>

lemma generate_sitemap:
  "generate X cfg mods = Inr ws \<Longrightarrow>
   hd ws = sitemap_write X cfg (map (\<lambda>(nm, dat). load X cfg nm dat) mods)"
  by (auto simp: generate_def sitemap_write_def Let_def split: sum.splits)







section \<open>A directory without a document of its own\<close>

text \<open>
  C7. Two documents at \<^verbatim>\<open>/blog/a/\<close> and \<^verbatim>\<open>/blog/b/\<close>, neither excluded, and none at
  \<^verbatim>\<open>/blog/\<close>: the tree is the root, with empty data, over one node \<^verbatim>\<open>/blog/\<close> with
  empty data, whose children are the nodes \<^verbatim>\<open>/blog/a/\<close> and \<^verbatim>\<open>/blog/b/\<close> with the
  data of the two documents.
\<close>

theorem blog_placeholder:
  assumes "\<not> excluded a" and "\<not> excluded b"
    and "name a = ''/blog/a/''" and "name b = ''/blog/b/''"
  shows "navTree [a, b] =
    Item ''/'' empty_data
      [Item ''/blog/'' empty_data
         [Item ''/blog/a/'' (data a) [], Item ''/blog/b/'' (data b) []]]"
  using assms by (simp add: navTree_def step_ins pnames_def)

theorem blog_placeholder_witness:
  "\<not> excluded (page ''/blog/a/'' ''A'' False) \<and> \<not> excluded (page ''/blog/b/'' ''B'' False)
   \<and> name (page ''/blog/a/'' ''A'' False) = ''/blog/a/''
   \<and> name (page ''/blog/b/'' ''B'' False) = ''/blog/b/''
   \<and> navTree [page ''/blog/a/'' ''A'' False, page ''/blog/b/'' ''B'' False] =
      Item ''/'' empty_data
        [Item ''/blog/'' empty_data
           [Item ''/blog/a/'' (data (page ''/blog/a/'' ''A'' False)) [],
            Item ''/blog/b/'' (data (page ''/blog/b/'' ''B'' False)) []]]"
  using blog_placeholder [of "page ''/blog/a/'' ''A'' False" "page ''/blog/b/'' ''B'' False"]
  by (simp add: excluded_def page_def)

section \<open>The tree in the store\<close>

text \<open>
  The loops on the store build the tree the fold on values returns. The proof follows
  the walk down the tree: at each node the objects below the node hold a tree whose
  addresses are all different and all allocated, the walk changes objects of that tree
  and new objects only, and afterwards the objects hold the tree the function
  \<open>walk\<close> returns.
\<close>

lemma in_heap_represents: "in_heap h t \<Longrightarrow> represents h (addr_of t) (erase t)"
proof (induction t)
  case (ANode a n x ts)
  then have "\<forall>t\<in>set ts. represents h (addr_of t) (erase t)" by simp
  then have "list_all2 (represents h) (map addr_of ts) (map erase ts)"
    by (simp add: list_all2_map1 list_all2_map2 list_all2_same)
  with ANode.prems show ?case by simp
qed

lemma represents_unique: "represents h a t \<Longrightarrow> represents h a t' \<Longrightarrow> t = t'"
proof (induction t arbitrary: a t')
  case (Item n x cs)
  obtain n' x' cs' where t': "t' = Item n' x' cs'" by (cases t')
  from Item.prems(1) obtain c where c: "h a = Some c" "oname c = n" "odata c = x"
    "list_all2 (represents h) (ochildren c) cs"
    by (cases "h a") auto
  from Item.prems(2) c(1) have c': "oname c = n'" "odata c = x'"
    "list_all2 (represents h) (ochildren c) cs'"
    unfolding t' by simp_all
  have "cs = cs'"
  proof (rule nth_equalityI)
    from c(4) c'(3) show "length cs = length cs'" by (metis list_all2_lengthD)
  next
    fix i assume i: "i < length cs"
    with c(4) have 1: "represents h (ochildren c ! i) (cs ! i)"
      by (metis list_all2_nthD2)
    from i c(4) c'(3) have 2: "represents h (ochildren c ! i) (cs' ! i)"
      by (metis list_all2_lengthD list_all2_nthD2)
    from i have "cs ! i \<in> set cs" by simp
    from Item.IH [OF this 1 2] show "cs ! i = cs' ! i" .
  qed
  with c c' t' show ?case by simp
qed

lemma in_heap_frame: "in_heap h t \<Longrightarrow> \<forall>a\<in>aset t. h' a = h a \<Longrightarrow> in_heap h' t"
proof (induction t)
  case (ANode a n x ts)
  have "in_heap h' t" if "t \<in> set ts" for t
    using that ANode by auto
  with ANode.prems show ?case by simp
qed

lemma addr_in_aset [simp]: "addr_of t \<in> aset t"
  by (cases t) simp

lemma in_heap_root: "in_heap h t \<Longrightarrow>
  h (addr_of t) = Some \<lparr>oname = aname t, odata = adata t, ochildren = map addr_of (asubs t)\<rparr>"
  by (cases t) simp

lemma find_map_index:
  "\<forall>t\<in>set ts. P (f t) = Q t \<Longrightarrow>
   List.find P (map f ts) = map_option (\<lambda>k. f (ts ! k)) (find_index Q ts)"
  by (induction ts) (auto simp: option.map_comp comp_def)

lemma find_index_map: "find_index P (map f xs) = find_index (\<lambda>x. P (f x)) xs"
  by (induction xs) auto

lemma iname_erase [simp]: "iname (erase t) = aname t"
  by (cases t) simp

lemma find_child_in_heap:
  assumes "in_heap (heap s) (ANode c n x ts)"
  shows "find_child s c nm = map_option (\<lambda>k. addr_of (ts ! k)) (find_index (\<lambda>t. aname t = nm) ts)"
proof -
  have "(case heap s (addr_of t) of None \<Rightarrow> False | Some d \<Rightarrow> oname d = nm) = (aname t = nm)"
    if "t \<in> set ts" for t
  proof -
    from assms that have "in_heap (heap s) t" by simp
    from in_heap_root [OF this] show ?thesis by simp
  qed
  then have "List.find (\<lambda>a. case heap s a of None \<Rightarrow> False | Some d \<Rightarrow> oname d = nm) (map addr_of ts)
      = map_option (\<lambda>k. addr_of (ts ! k)) (find_index (\<lambda>t. aname t = nm) ts)"
    by (intro find_map_index) simp
  with assms show ?thesis by (simp add: find_child_def)
qed

lemma walk_store_refines:
  assumes "in_heap (heap s) t" "sep t" "aset t \<subseteq> {..<fresh s}"
  shows "\<exists>t'. in_heap (heap (walk_store parts i dat (addr_of t) s)) t'
     \<and> addr_of t' = addr_of t
     \<and> erase t' = walk parts i dat (erase t)
     \<and> sep t'
     \<and> aset t' \<subseteq> aset t \<union> {fresh s..<fresh (walk_store parts i dat (addr_of t) s)}
     \<and> fresh s \<le> fresh (walk_store parts i dat (addr_of t) s)
     \<and> (\<forall>b<fresh s. b \<notin> aset t \<longrightarrow> heap (walk_store parts i dat (addr_of t) s) b = heap s b)"
  using assms
proof (induction parts i dat "addr_of t" s arbitrary: t rule: walk_store.induct)
  case (1 parts i dat s)
  obtain c n x ts where t: "t = ANode c n x ts" by (cases t)
  from "1.prems"(1) have hc: "heap s c = Some \<lparr>oname = n, odata = x, ochildren = map addr_of ts\<rparr>"
    and subs: "\<And>u. u \<in> set ts \<Longrightarrow> in_heap (heap s) u"
    by (simp_all add: t)
  from "1.prems"(2) have c_out: "\<And>u. u \<in> set ts \<Longrightarrow> c \<notin> aset u"
    and seps: "\<And>u. u \<in> set ts \<Longrightarrow> sep u"
    and disj: "\<And>j k. j < length ts \<Longrightarrow> k < length ts \<Longrightarrow> j \<noteq> k \<Longrightarrow> aset (ts ! j) \<inter> aset (ts ! k) = {}"
    by (auto simp: t)
  from "1.prems"(3) have c_lt: "c < fresh s"
    and low: "\<And>u b. u \<in> set ts \<Longrightarrow> b \<in> aset u \<Longrightarrow> b < fresh s"
    by (auto simp: t)
  let ?nm = "join_slash (take (Suc (Suc i)) parts) @ ''/''"
  let ?s' = "walk_store parts i dat c s"
  have goal: "\<exists>t'. in_heap (heap ?s') t' \<and> addr_of t' = c
     \<and> erase t' = walk parts i dat (erase t) \<and> sep t'
     \<and> aset t' \<subseteq> aset t \<union> {fresh s..<fresh ?s'} \<and> fresh s \<le> fresh ?s'
     \<and> (\<forall>b<fresh s. b \<notin> aset t \<longrightarrow> heap ?s' b = heap s b)"
  proof (cases "Suc i < length parts")
    case False
    then have s': "?s' = s\<lparr>heap := (heap s)(c \<mapsto> \<lparr>oname = n, odata = dat, ochildren = map addr_of ts\<rparr>)\<rparr>"
      by (simp add: walk_store.simps [of parts i] set_data_def hc)
    let ?t' = "ANode c n dat ts"
    have "in_heap (heap ?s') u" if "u \<in> set ts" for u
      using subs [OF that] c_out [OF that] by (auto intro: in_heap_frame simp: s')
    then have 1: "in_heap (heap ?s') ?t'" by (simp add: s')
    from False have 3: "erase ?t' = walk parts i dat (erase t)"
      by (simp add: walk.simps [of parts i] t)
    from "1.prems"(2) have 4: "sep ?t'" by (simp add: t)
    have 5: "aset ?t' \<subseteq> aset t \<union> {fresh s..<fresh ?s'}" by (auto simp: t)
    have 6: "fresh s \<le> fresh ?s'" by (simp add: s')
    have 7: "\<forall>b<fresh s. b \<notin> aset t \<longrightarrow> heap ?s' b = heap s b" by (simp add: s' t)
    from 1 3 4 5 6 7 show ?thesis by (intro exI [of _ ?t']) simp
  next
    case True
    have fc: "find_child s c ?nm
        = map_option (\<lambda>k. addr_of (ts ! k)) (find_index (\<lambda>u. aname u = ?nm) ts)"
      using "1.prems"(1) unfolding t by (rule find_child_in_heap)
    have fi: "find_index (\<lambda>d. iname d = ?nm) (map erase ts) = find_index (\<lambda>u. aname u = ?nm) ts"
      by (simp add: find_index_map)
    show ?thesis
    proof (cases "find_index (\<lambda>u. aname u = ?nm) ts")
      case None
      let ?a = "fresh s"
      let ?leaf = "\<lparr>oname = ?nm, odata = empty_data, ochildren = []\<rparr>"
      let ?s1 = "s\<lparr>heap := (heap s)(?a \<mapsto> ?leaf), fresh := Suc ?a\<rparr>"
      let ?s2 = "?s1\<lparr>heap := (heap ?s1)(c \<mapsto> \<lparr>oname = n, odata = x, ochildren = map addr_of ts @ [?a]\<rparr>)\<rparr>"
      let ?lt = "ANode ?a ?nm empty_data []"
      have ni: "new_item ?nm s = (?a, ?s1)" by (simp add: new_item_def)
      have ca: "c \<noteq> ?a" using c_lt by simp
      have pc: "push_child c ?a ?s1 = ?s2" using ca hc by (simp add: push_child_def)
      have s': "?s' = walk_store parts (Suc i) dat ?a ?s2"
        using True None by (simp add: walk_store.simps [of parts i] fc ni pc Let_def)
      note IH = "1.hyps"(1) [where x = ?nm and xa = "new_item ?nm s" and t = ?lt and y = ?s1]
      have fcn: "find_child s c ?nm = None" by (simp add: fc None)
      have "\<exists>t'. in_heap (heap ?s') t' \<and> addr_of t' = ?a
        \<and> erase t' = walk parts (Suc i) dat (Item ?nm empty_data [])
        \<and> sep t'
        \<and> aset t' \<subseteq> {?a} \<union> {Suc ?a..<fresh ?s'}
        \<and> Suc ?a \<le> fresh ?s'
        \<and> (\<forall>b<Suc ?a. b \<noteq> ?a \<longrightarrow> heap ?s' b = heap ?s2 b)"
        using IH True fcn ca by (simp add: t ni pc s')
      then obtain lt' where lt': "in_heap (heap ?s') lt'" "addr_of lt' = ?a"
        "erase lt' = walk parts (Suc i) dat (Item ?nm empty_data [])" "sep lt'"
        "aset lt' \<subseteq> {?a} \<union> {Suc ?a..<fresh ?s'}" "Suc ?a \<le> fresh ?s'"
        "\<forall>b<Suc ?a. b \<noteq> ?a \<longrightarrow> heap ?s' b = heap ?s2 b"
        by blast
      have old: "heap ?s' b = heap s b" if "b < ?a" "b \<noteq> c" for b
        using lt'(7) that by simp
      have high: "b \<ge> ?a" if "b \<in> aset lt'" for b
        using lt'(5) that by auto
      let ?t' = "ANode c n x (ts @ [lt'])"
      have "heap ?s' c = heap ?s2 c" using lt'(7) c_lt by simp
      then have root: "heap ?s' c = Some \<lparr>oname = n, odata = x, ochildren = map addr_of (ts @ [lt'])\<rparr>"
        by (simp add: lt'(2))
      have "in_heap (heap ?s') u" if "u \<in> set ts" for u
      proof (rule in_heap_frame [OF subs [OF that]])
        show "\<forall>b\<in>aset u. heap ?s' b = heap s b"
          using low [OF that] c_out [OF that] old by blast
      qed
      with root lt'(1) have 1: "in_heap (heap ?s') ?t'" by auto
      have 3: "erase ?t' = walk parts i dat (erase t)"
        using True None by (simp add: walk.simps [of parts i] t fi lt'(3) Let_def)
      have 4: "sep ?t'"
      proof -
        have a: "c \<notin> aset u" if "u \<in> set (ts @ [lt'])" for u
          using that c_out high c_lt by fastforce
        have b: "sep u" if "u \<in> set (ts @ [lt'])" for u
          using that seps lt'(4) by auto
        have d: "aset ((ts @ [lt']) ! j) \<inter> aset ((ts @ [lt']) ! k) = {}"
          if jk: "j < length (ts @ [lt'])" "k < length (ts @ [lt'])" "j \<noteq> k" for j k
        proof -
          have new: "aset (ts ! m) \<inter> aset lt' = {}" if "m < length ts" for m
            using low [of "ts ! m"] high that by fastforce
          from jk consider "j < length ts" "k < length ts"
            | "j < length ts" "k = length ts" | "j = length ts" "k < length ts"
            by force
          then show ?thesis
          proof cases
            case 1 with jk(3) disj show ?thesis by (simp add: nth_append)
          next
            case 2 with new show ?thesis by (simp add: nth_append)
          next
            case 3 with new [of k] show ?thesis by (auto simp: nth_append)
          qed
        qed
        from a b d show ?thesis by (simp del: length_append)
      qed
      have 5: "aset ?t' \<subseteq> aset t \<union> {fresh s..<fresh ?s'}"
        using lt'(5,6) by (auto simp: t)
      have 6: "fresh s \<le> fresh ?s'" using lt'(6) by simp
      have 7: "\<forall>b<fresh s. b \<notin> aset t \<longrightarrow> heap ?s' b = heap s b"
        using old by (simp add: t)
      from 1 3 4 5 6 7 show ?thesis by (intro exI [of _ ?t']) simp
    next
      case (Some k)
      from find_index_Some [OF Some] have k: "k < length ts" "aname (ts ! k) = ?nm" by auto
      then have mem: "ts ! k \<in> set ts" by simp
      let ?u = "ts ! k"
      have s': "?s' = walk_store parts (Suc i) dat (addr_of ?u) s"
        using True Some by (simp add: walk_store.simps [of parts i] fc Let_def)
      note IH = "1.hyps"(2) [where x = ?nm and t = ?u]
      have fcs: "find_child s c ?nm = Some (addr_of ?u)" by (simp add: fc Some)
      have lowu: "aset ?u \<subseteq> {..<fresh s}" using low [OF mem] by auto
      have "\<exists>t'. in_heap (heap ?s') t' \<and> addr_of t' = addr_of ?u
        \<and> erase t' = walk parts (Suc i) dat (erase ?u)
        \<and> sep t'
        \<and> aset t' \<subseteq> aset ?u \<union> {fresh s..<fresh ?s'}
        \<and> fresh s \<le> fresh ?s'
        \<and> (\<forall>b<fresh s. b \<notin> aset ?u \<longrightarrow> heap ?s' b = heap s b)"
        using IH True fcs subs [OF mem] seps [OF mem] lowu by (simp add: t s')
      then obtain u' where u': "in_heap (heap ?s') u'" "addr_of u' = addr_of ?u"
        "erase u' = walk parts (Suc i) dat (erase ?u)" "sep u'"
        "aset u' \<subseteq> aset ?u \<union> {fresh s..<fresh ?s'}" "fresh s \<le> fresh ?s'"
        "\<forall>b<fresh s. b \<notin> aset ?u \<longrightarrow> heap ?s' b = heap s b"
        by blast
      let ?t' = "ANode c n x (ts[k := u'])"
      have upd: "v = u' \<or> (\<exists>j<length ts. j \<noteq> k \<and> v = ts ! j)" if "v \<in> set (ts[k := u'])" for v
      proof -
        from that obtain j where "j < length ts" "v = ts[k := u'] ! j"
          by (auto simp: in_set_conv_nth)
        then show ?thesis by (cases "j = k") auto
      qed
      have other: "aset (ts ! j) \<inter> aset u' = {}" if "j < length ts" "j \<noteq> k" for j
      proof -
        from that have "ts ! j \<in> set ts" by simp
        from low [OF this] disj [OF that(1) k(1) that(2)] u'(5) show ?thesis by fastforce
      qed
      have "heap ?s' c = heap s c" using u'(7) c_lt c_out [OF mem] by simp
      moreover have "map addr_of (ts[k := u']) = map addr_of ts"
        using k(1) u'(2) by (simp add: map_update list_update_same_conv)
      ultimately have root: "heap ?s' c
          = Some \<lparr>oname = n, odata = x, ochildren = map addr_of (ts[k := u'])\<rparr>"
        using hc by simp
      have "in_heap (heap ?s') v" if "v \<in> set (ts[k := u'])" for v
      proof -
        from upd [OF that] show ?thesis
        proof
          assume "v = u'" with u'(1) show ?thesis by simp
        next
          assume "\<exists>j<length ts. j \<noteq> k \<and> v = ts ! j"
          then obtain j where j: "j < length ts" "j \<noteq> k" "v = ts ! j" by blast
          then have vm: "v \<in> set ts" by simp
          show ?thesis
          proof (rule in_heap_frame [OF subs [OF vm]])
            show "\<forall>b\<in>aset v. heap ?s' b = heap s b"
              using low [OF vm] disj [OF j(1) k(1) j(2)] u'(7) j(3) by blast
          qed
        qed
      qed
      with root have 1: "in_heap (heap ?s') ?t'" by simp
      have 3: "erase ?t' = walk parts i dat (erase t)"
        using True Some k(1) by (simp add: walk.simps [of parts i] t fi u'(3) map_update Let_def)
      have 4: "sep ?t'"
      proof -
        have a: "c \<notin> aset v" if "v \<in> set (ts[k := u'])" for v
        proof -
          from upd [OF that] show ?thesis
          proof
            assume "v = u'"
            with u'(5) c_out [OF mem] c_lt show ?thesis by auto
          next
            assume "\<exists>j<length ts. j \<noteq> k \<and> v = ts ! j"
            with c_out show ?thesis by auto
          qed
        qed
        have b: "sep v" if "v \<in> set (ts[k := u'])" for v
          using upd [OF that] seps u'(4) by auto
        have d: "aset (ts[k := u'] ! j) \<inter> aset (ts[k := u'] ! m) = {}"
          if jm: "j < length ts" "m < length ts" "j \<noteq> m" for j m
        proof -
          consider "j = k" | "m = k" | "j \<noteq> k" "m \<noteq> k" by blast
          then show ?thesis
          proof cases
            case 1 with jm other [of m] show ?thesis by (auto simp: Int_commute)
          next
            case 2 with jm other [of j] show ?thesis by auto
          next
            case 3 with jm disj show ?thesis by simp
          qed
        qed
        from a b d show ?thesis by simp
      qed
      have 5: "aset ?t' \<subseteq> aset t \<union> {fresh s..<fresh ?s'}"
      proof
        fix b assume "b \<in> aset ?t'"
        then consider "b = c" | v where "v \<in> set (ts[k := u'])" "b \<in> aset v" by auto
        then show "b \<in> aset t \<union> {fresh s..<fresh ?s'}"
        proof cases
          case 1 then show ?thesis by (simp add: t)
        next
          case 2
          from upd [OF 2(1)] show ?thesis
          proof
            assume "v = u'"
            with 2(2) u'(5) mem show ?thesis by (auto simp: t)
          next
            assume "\<exists>j<length ts. j \<noteq> k \<and> v = ts ! j"
            with 2(2) show ?thesis by (auto simp: t)
          qed
        qed
      qed
      have 6: "fresh s \<le> fresh ?s'" by (rule u'(6))
      have 7: "\<forall>b<fresh s. b \<notin> aset t \<longrightarrow> heap ?s' b = heap s b"
        using u'(7) mem by (auto simp: t)
      from 1 3 4 5 6 7 show ?thesis by (intro exI [of _ ?t']) simp
    qed
  qed
  then show ?case by (simp add: t)
qed

lemma step_store_refines:
  assumes "in_heap (heap s) t" "sep t" "aset t \<subseteq> {..<fresh s}"
  shows "\<exists>t'. in_heap (heap (step_store (addr_of t) d s)) t'
     \<and> addr_of t' = addr_of t \<and> erase t' = step d (erase t)
     \<and> sep t' \<and> aset t' \<subseteq> {..<fresh (step_store (addr_of t) d s)}"
proof (cases "excluded d")
  case True
  with assms show ?thesis by (auto simp: step_store_def step_def)
next
  case False
  let ?parts = "butlast (split_slash (name d))"
  let ?s' = "walk_store ?parts 0 (data d) (addr_of t) s"
  from walk_store_refines [OF assms, of ?parts 0 "data d"]
  obtain t' where t': "in_heap (heap ?s') t'" "addr_of t' = addr_of t"
    "erase t' = walk ?parts 0 (data d) (erase t)" "sep t'"
    "aset t' \<subseteq> aset t \<union> {fresh s..<fresh ?s'}" "fresh s \<le> fresh ?s'"
    by blast
  from t'(5,6) assms(3) have "aset t' \<subseteq> {..<fresh ?s'}" by fastforce
  with t' False show ?thesis by (auto simp: step_store_def step_def)
qed

lemma build_store_refines:
  assumes "in_heap (heap s) t" "sep t" "aset t \<subseteq> {..<fresh s}"
  shows "\<exists>t'. in_heap (heap (build_store (addr_of t) ds s)) t'
     \<and> addr_of t' = addr_of t \<and> erase t' = build ds (erase t)"
  using assms
proof (induction ds arbitrary: s t)
  case Nil
  then show ?case by auto
next
  case (Cons d ds)
  from step_store_refines [OF Cons.prems, of d]
  obtain t1 where t1: "in_heap (heap (step_store (addr_of t) d s)) t1" "addr_of t1 = addr_of t"
    "erase t1 = step d (erase t)" "sep t1" "aset t1 \<subseteq> {..<fresh (step_store (addr_of t) d s)}"
    by blast
  from Cons.IH [OF t1(1,4,5)] t1(2,3) show ?case by simp
qed

lemma navTree_store_represents:
  "represents (heap (snd (navTree_store allInfo s))) (fst (navTree_store allInfo s)) (navTree allInfo)"
proof -
  let ?a = "fresh s"
  let ?s1 = "s\<lparr>heap := (heap s)(?a \<mapsto> \<lparr>oname = ''/'', odata = empty_data, ochildren = []\<rparr>),
    fresh := Suc ?a\<rparr>"
  let ?t0 = "ANode ?a ''/'' empty_data []"
  have "in_heap (heap ?s1) ?t0" "sep ?t0" "aset ?t0 \<subseteq> {..<fresh ?s1}" by simp_all
  from build_store_refines [OF this, of allInfo]
  obtain t' where t': "in_heap (heap (build_store ?a allInfo ?s1)) t'" "addr_of t' = ?a"
    "erase t' = navTree allInfo"
    by (auto simp: navTree_def)
  from in_heap_represents [OF t'(1)] t'(2,3) show ?thesis
    by (simp add: navTree_store_def new_item_def)
qed

text \<open>
  C9. The tree is a function of the list of documents: two runs of the loops, from
  any two stores, leave objects that are the same tree, node for node, with the same
  names, the same order of children and the same data, and that tree is the value
  \<open>navTree allInfo\<close>.
\<close>

theorem build_deterministic:
  assumes "navTree_store allInfo s1 = (root1, s1')"
    and "navTree_store allInfo s2 = (root2, s2')"
  shows "represents (heap s1') root1 (navTree allInfo)
    \<and> represents (heap s2') root2 (navTree allInfo)
    \<and> (\<forall>t. represents (heap s1') root1 t \<longleftrightarrow> represents (heap s2') root2 t)"
proof -
  from navTree_store_represents [of allInfo s1] assms(1)
  have 1: "represents (heap s1') root1 (navTree allInfo)" by simp
  from navTree_store_represents [of allInfo s2] assms(2)
  have 2: "represents (heap s2') root2 (navTree allInfo)" by simp
  from 1 2 show ?thesis by (metis represents_unique)
qed

theorem build_deterministic_witness:
  "fst (navTree_store [page ''/a/b/'' ''B'' False, page ''/a/'' ''A'' True, page ''/c/'' ''C'' False]
      \<lparr>heap = Map.empty, fresh = 0\<rparr>) = 0
   \<and> fst (navTree_store [page ''/a/b/'' ''B'' False, page ''/a/'' ''A'' True, page ''/c/'' ''C'' False]
        (snd (navTree_store [page ''/a/b/'' ''B'' False, page ''/a/'' ''A'' True, page ''/c/'' ''C'' False]
           \<lparr>heap = Map.empty, fresh = 0\<rparr>))) = 4
   \<and> represents
        (heap (snd (navTree_store [page ''/a/b/'' ''B'' False, page ''/a/'' ''A'' True, page ''/c/'' ''C'' False]
           \<lparr>heap = Map.empty, fresh = 0\<rparr>))) 0
        (Item ''/'' empty_data
           [Item ''/a/'' empty_data [Item ''/a/b/'' (data (page ''/a/b/'' ''B'' False)) []],
            Item ''/c/'' (data (page ''/c/'' ''C'' False)) []])
   \<and> represents
        (heap (snd (navTree_store [page ''/a/b/'' ''B'' False, page ''/a/'' ''A'' True, page ''/c/'' ''C'' False]
           (snd (navTree_store [page ''/a/b/'' ''B'' False, page ''/a/'' ''A'' True, page ''/c/'' ''C'' False]
              \<lparr>heap = Map.empty, fresh = 0\<rparr>))))) 4
        (Item ''/'' empty_data
           [Item ''/a/'' empty_data [Item ''/a/b/'' (data (page ''/a/b/'' ''B'' False)) []],
            Item ''/c/'' (data (page ''/c/'' ''C'' False)) []])"
  using build_deterministic [of "[page ''/a/b/'' ''B'' False, page ''/a/'' ''A'' True, page ''/c/'' ''C'' False]"
      "\<lparr>heap = Map.empty, fresh = 0\<rparr>" 0
      "snd (navTree_store [page ''/a/b/'' ''B'' False, page ''/a/'' ''A'' True, page ''/c/'' ''C'' False]
           \<lparr>heap = Map.empty, fresh = 0\<rparr>)"
      "snd (navTree_store [page ''/a/b/'' ''B'' False, page ''/a/'' ''A'' True, page ''/c/'' ''C'' False]
           \<lparr>heap = Map.empty, fresh = 0\<rparr>)" 4
      "snd (navTree_store [page ''/a/b/'' ''B'' False, page ''/a/'' ''A'' True, page ''/c/'' ''C'' False]
           (snd (navTree_store [page ''/a/b/'' ''B'' False, page ''/a/'' ''A'' True, page ''/c/'' ''C'' False]
              \<lparr>heap = Map.empty, fresh = 0\<rparr>)))"]
  by (simp add: navTree_store_def new_item_def step_store_def walk_store.simps find_child_def
      push_child_def set_data_def excluded_def page_def Let_def navTree_def step_ins pnames_def)


end
